theory Spec2Isabelle
  imports Main "HOL-Library.Word"
begin

unbundle bit_operations_syntax

section \<open>Errors\<close>

text \<open>
  Every call of \<^verbatim>\<open>panic()\<close> aborts the process.  The model returns the panic as
  a value, one constructor for each call site that the modelled functions reach.
\<close>

datatype error =
    Pool_is_empty            \<comment> \<open>\<^verbatim>\<open>pool_new\<close>: "pool is empty"\<close>
  | Cant_restore_note        \<comment> \<open>\<^verbatim>\<open>state_restore\<close>: "can't restore note events"\<close>
  | Bad_phase                \<comment> \<open>\<^verbatim>\<open>statelist_update\<close>: "bad phase"\<close>
  | Bad_state_startreq       \<comment> \<open>\<^verbatim>\<open>mux_startreq\<close>: "bad state to call mux_startreq()"\<close>
  | Startwait_bad_state      \<comment> \<open>\<^verbatim>\<open>mux_timercb\<close>: "startwait: bad state"\<close>
  | Offset_larger_than_tick  \<comment> \<open>\<^verbatim>\<open>mux_mtcstart\<close>: "offset larger than 1 tick"\<close>
  | Null_dereference         \<comment> \<open>a read through a \<^verbatim>\<open>NULL\<close> pointer\<close>

type_synonym u32 = "32 word"
type_synonym u64 = "64 word"

section \<open>Fixed-size object pool (pool.c)\<close>

text \<open>
  A pool is a block of \<^verbatim>\<open>itemnum\<close> entries of \<^verbatim>\<open>itemsize\<close> bytes.  An entry is
  named by its byte offset from \<^verbatim>\<open>o->data\<close>.  The free entries are a singly linked
  list threaded through the entries themselves; the model keeps the chain as the list of
  the offsets in link order, \<^verbatim>\<open>o->first\<close> being its head.

  Sizes are those of an LP64 platform: \<^verbatim>\<open>sizeof(struct poolent) = 8\<close> and
  \<^verbatim>\<open>sizeof(unsigned) = 4\<close>; \<^verbatim>\<open>unsigned\<close> arithmetic is modulo \<open>2^32\<close>.
\<close>

record pool =
  pool_first :: "nat list"
  itemnum :: u32
  itemsize :: u32

text \<open>The rounding of the item size at the head of \<^verbatim>\<open>pool_init\<close>.\<close>

definition pool_roundsize :: "u32 \<Rightarrow> u32" where
  "pool_roundsize sz =
     (let s1 = (if sz < 8 then 8 else sz);
          s2 = s1 + (4 - 1)
      in s2 AND NOT (4 - 1))"

text \<open>
  The loop of \<^verbatim>\<open>pool_init\<close> that links all entries: \<^verbatim>\<open>i\<close> counts down from
  \<^verbatim>\<open>itemnum\<close>, \<^verbatim>\<open>p\<close> walks the block, every entry is pushed on the free list, and
  the field \<^verbatim>\<open>itemnum\<close> is incremented once more for each entry.
\<close>

fun pool_init_loop :: "nat \<Rightarrow> nat \<Rightarrow> pool \<Rightarrow> pool" where
  "pool_init_loop 0 p o' = o'"
| "pool_init_loop (Suc i) p o' =
     pool_init_loop i (p + unat (itemsize o'))
       (o'\<lparr>pool_first := p # pool_first o', itemnum := itemnum o' + 1\<rparr>)"

definition pool_init :: "u32 \<Rightarrow> u32 \<Rightarrow> pool" where
  "pool_init isz inum =
     pool_init_loop (unat inum) 0
       \<lparr>pool_first = [], itemnum = inum, itemsize = pool_roundsize isz\<rparr>"

definition pool_new :: "pool \<Rightarrow> error + (nat \<times> pool)" where
  "pool_new o' =
     (case pool_first o' of
        [] \<Rightarrow> Inl Pool_is_empty
      | e # rest \<Rightarrow> Inr (e, o'\<lparr>pool_first := rest\<rparr>))"

definition pool_del :: "pool \<Rightarrow> nat \<Rightarrow> pool" where
  "pool_del o' p = o'\<lparr>pool_first := p # pool_first o'\<rparr>"

section \<open>Events (ev.h)\<close>

text \<open>
  Modelled from the spec: the header \<^verbatim>\<open>ev.h\<close> and \<^verbatim>\<open>ev.c\<close> are not among the
  sources.  The command tags are those the sources name (\<^verbatim>\<open>EV_NON\<close>, ...)
  and the spec lists; an event carries a command, a device, a channel and two values.
\<close>

datatype evcmd =
    EV_NULL | EV_TEMPO | EV_TIMESIG | EV_NRPN | EV_RPN | EV_XCTL | EV_XPC
  | EV_NOFF | EV_NON | EV_KAT | EV_CTL | EV_PC | EV_CAT | EV_BEND | EV_PAT nat

record ev =
  cmd :: evcmd
  dev :: nat
  ch :: nat
  v0 :: nat
  v1 :: nat

text \<open>
  Modelled from the spec: the macro \<^verbatim>\<open>EV_ISNOTE\<close> of \<^verbatim>\<open>ev.h\<close>.  The note family
  is note-on, note-off and key aftertouch.
\<close>

definition EV_ISNOTE :: "ev \<Rightarrow> bool" where
  "EV_ISNOTE e = (cmd e = EV_NON \<or> cmd e = EV_NOFF \<or> cmd e = EV_KAT)"

text \<open>
  Modelled from the spec: the phase bits of \<^verbatim>\<open>ev.h\<close>, a 3-bit mask
  \<open>{FIRST, NEXT, LAST}\<close>.
\<close>

definition EV_PHASE_FIRST :: u32 where "EV_PHASE_FIRST = 1"
definition EV_PHASE_NEXT :: u32 where "EV_PHASE_NEXT = 2"
definition EV_PHASE_LAST :: u32 where "EV_PHASE_LAST = 4"

section \<open>States and state lists (state.h, state.c)\<close>

definition STATE_NEW :: u32 where "STATE_NEW = 1"
definition STATE_CHANGED :: u32 where "STATE_CHANGED = 2"
definition STATE_BOGUS :: u32 where "STATE_BOGUS = 4"
definition STATE_NESTED :: u32 where "STATE_NESTED = 8"

text \<open>
  A state lives in an entry of the state pool; \<open>slot\<close> is that entry.  The links
  \<^verbatim>\<open>next\<close> and \<^verbatim>\<open>prev\<close> are represented by the order of the list that holds
  the states.  The scratch fields \<^verbatim>\<open>nevents\<close>, \<^verbatim>\<open>tag\<close>, \<^verbatim>\<open>tic\<close> and
  \<^verbatim>\<open>pos\<close> are ignored by every routine modelled here and are left out.
\<close>

record state =
  slot :: nat
  ev :: ev
  phase :: u32
  flags :: u32

record statelist =
  first :: "state list"
  changed :: u32
  serial :: u32

definition state_copyev :: "state \<Rightarrow> ev \<Rightarrow> u32 \<Rightarrow> state" where
  "state_copyev st e ph = st\<lparr>ev := e, phase := ph, flags := flags st OR STATE_CHANGED\<rparr>"

text \<open>
  \<^verbatim>\<open>state_restore(st, rev)\<close>: the result is the returned count together with the
  contents of \<^verbatim>\<open>*rev\<close> on return.
\<close>

definition state_restore :: "state \<Rightarrow> ev \<Rightarrow> error + (nat \<times> ev)" where
  "state_restore st rv =
     (if flags st AND STATE_BOGUS \<noteq> 0 then Inr (0, rv)
      else if EV_ISNOTE (ev st) then Inl Cant_restore_note
      else if phase st AND EV_PHASE_LAST \<noteq> 0 \<and> \<not> (phase st AND EV_PHASE_FIRST \<noteq> 0)
        then Inr (0, rv)
      else Inr (1, ev st))"

text \<open>
  \<^verbatim>\<open>state_new\<close> and \<^verbatim>\<open>state_del\<close> take from and give back to the global
  \<^verbatim>\<open>state_pool\<close>, which the model passes explicitly.
\<close>

definition state_new :: "pool \<Rightarrow> error + (nat \<times> pool)" where
  "state_new state_pool = pool_new state_pool"

definition state_del :: "pool \<Rightarrow> state \<Rightarrow> pool" where
  "state_del state_pool s = pool_del state_pool (slot s)"

text \<open>
  \<^verbatim>\<open>ev_match\<close> and \<^verbatim>\<open>ev_phase\<close> belong to \<^verbatim>\<open>ev.c\<close>, which is not among the
  sources: the routines below take them as the parameters \<open>em\<close> and \<open>ep\<close>.
\<close>

definition state_match :: "(ev \<Rightarrow> ev \<Rightarrow> bool) \<Rightarrow> state \<Rightarrow> ev \<Rightarrow> bool" where
  "state_match em st e = em (ev st) e"

definition statelist_add :: "statelist \<Rightarrow> state \<Rightarrow> statelist" where
  "statelist_add o' st = o'\<lparr>first := st # first o'\<rparr>"

text \<open>
  A freshly allocated entry holds no meaningful \<^verbatim>\<open>ev\<close> and \<^verbatim>\<open>phase\<close>: they are
  written by \<^verbatim>\<open>state_copyev\<close> before \<^verbatim>\<open>statelist_update\<close> returns and are not read
  before.  The model fills them with the incoming event and no phase bit.
\<close>

definition fresh_state :: "nat \<Rightarrow> ev \<Rightarrow> u32 \<Rightarrow> state" where
  "fresh_state p e fl = \<lparr>slot = p, ev = e, phase = 0, flags = fl\<rparr>"

text \<open>
  The \<^verbatim>\<open>for (;;)\<close> loop of \<^verbatim>\<open>statelist_update\<close>.  The cursor \<^verbatim>\<open>st\<close> is the head
  of the second list, the first list holds the states the cursor has passed and kept.
  The result is the list, the position in it of the state \<^verbatim>\<open>st\<close> points to when the
  loop is left, and the state pool.
\<close>

fun update_loop ::
  "(ev \<Rightarrow> ev \<Rightarrow> bool) \<Rightarrow> ev \<Rightarrow> state list \<Rightarrow> state list \<Rightarrow> pool
     \<Rightarrow> error + (state list \<times> nat \<times> pool)" where
  "update_loop em e pre [] pl =
     (case state_new pl of
        Inl err \<Rightarrow> Inl err
      | Inr (p, pl') \<Rightarrow> Inr (fresh_state p e STATE_NEW # pre, 0, pl'))"
| "update_loop em e pre (st # stnext) pl =
     (if state_match em st e then
        (if \<not> (phase st = EV_PHASE_LAST) \<and> \<not> (flags st AND STATE_BOGUS \<noteq> 0)
         then Inr (pre @ st\<lparr>flags := flags st AND NOT STATE_NEW\<rparr> # stnext, length pre, pl)
         else update_loop em e pre stnext (state_del pl st))
      else update_loop em e (pre @ [st]) stnext pl)"

text \<open>
  The \<^verbatim>\<open>switch (phase)\<close> of \<^verbatim>\<open>statelist_update\<close>; \<open>i\<close> is the position of
  \<^verbatim>\<open>st\<close>.  The result carries the possibly changed phase.
\<close>

definition update_switch ::
  "ev \<Rightarrow> u32 \<Rightarrow> state list \<Rightarrow> nat \<Rightarrow> pool \<Rightarrow> error + (state list \<times> nat \<times> u32 \<times> pool)" where
  "update_switch e ph xs i pl =
     (if ph = EV_PHASE_FIRST then
        (if flags (xs ! i) \<noteq> STATE_NEW then
           (case state_new pl of
              Inl err \<Rightarrow> Inl err
            | Inr (p, pl') \<Rightarrow>
                Inr (fresh_state p e (STATE_NEW OR STATE_NESTED) # xs, 0, ph, pl'))
         else Inr (xs, i, ph, pl))
      else if ph = EV_PHASE_NEXT \<or> ph = EV_PHASE_LAST then
        (if flags (xs ! i) = STATE_NEW then
           Inr (xs[i := (xs ! i)\<lparr>flags := flags (xs ! i) OR STATE_BOGUS\<rparr>], i,
                (ph OR EV_PHASE_FIRST) AND NOT EV_PHASE_NEXT, pl)
         else Inr (xs, i, ph, pl))
      else if ph = EV_PHASE_FIRST OR EV_PHASE_NEXT then
        Inr (xs, i,
             ph AND (if flags (xs ! i) = STATE_NEW then NOT EV_PHASE_NEXT
                     else NOT EV_PHASE_FIRST), pl)
      else if ph = EV_PHASE_FIRST OR EV_PHASE_LAST then Inr (xs, i, ph, pl)
      else Inl Bad_phase)"

text \<open>
  \<^verbatim>\<open>statelist_update(statelist, ev)\<close>.  The returned pointer is given as the position
  of the state in the list on return; the state list and the state pool are returned
  with it.
\<close>

definition statelist_update ::
  "(ev \<Rightarrow> u32) \<Rightarrow> (ev \<Rightarrow> ev \<Rightarrow> bool) \<Rightarrow> statelist \<Rightarrow> pool \<Rightarrow> ev
     \<Rightarrow> error + (nat \<times> statelist \<times> pool)" where
  "statelist_update ep em sl pl e =
     (case update_loop em e [] (first sl) pl of
        Inl err \<Rightarrow> Inl err
      | Inr (xs, i, pl1) \<Rightarrow>
          (case update_switch e (ep e) xs i pl1 of
             Inl err \<Rightarrow> Inl err
           | Inr (ys, j, ph, pl2) \<Rightarrow>
               Inr (j, sl\<lparr>first := ys[j := state_copyev (ys ! j) e ph], changed := 1\<rparr>, pl2)))"

text \<open>A sequence of calls of \<^verbatim>\<open>statelist_update\<close>, stopping at the first panic.\<close>

fun statelist_updates ::
  "(ev \<Rightarrow> u32) \<Rightarrow> (ev \<Rightarrow> ev \<Rightarrow> bool) \<Rightarrow> statelist \<Rightarrow> pool \<Rightarrow> ev list
     \<Rightarrow> error + (statelist \<times> pool)" where
  "statelist_updates ep em sl pl [] = Inr (sl, pl)"
| "statelist_updates ep em sl pl (e # es) =
     (case statelist_update ep em sl pl e of
        Inl err \<Rightarrow> Inl err
      | Inr (j, sl', pl') \<Rightarrow> statelist_updates ep em sl' pl' es)"

text \<open>The loop of \<^verbatim>\<open>statelist_outdate\<close>, with the cursor as in \<open>update_loop\<close>.\<close>

fun outdate_loop :: "state list \<Rightarrow> state list \<Rightarrow> pool \<Rightarrow> state list \<times> pool" where
  "outdate_loop pre [] pl = (pre, pl)"
| "outdate_loop pre (i # inext) pl =
     (if phase i = EV_PHASE_LAST then outdate_loop pre inext (state_del pl i)
      else outdate_loop (pre @ [i\<lparr>flags := flags i AND NOT STATE_CHANGED\<rparr>]) inext pl)"

definition statelist_outdate :: "statelist \<Rightarrow> pool \<Rightarrow> statelist \<times> pool" where
  "statelist_outdate o' pl =
     (if changed o' = 0 then (o', pl)
      else (case outdate_loop [] (first o') pl of
              (xs, pl') \<Rightarrow> (o'\<lparr>first := xs, changed := 0\<rparr>, pl')))"

text \<open>
  Modelled from the spec: \<^verbatim>\<open>ev_phase\<close> of \<^verbatim>\<open>ev.c\<close>, used where a concrete event
  is evaluated.  The spec fixes the note family (note-on starts a frame, key aftertouch
  continues it, note-off ends it) and names the stateless events as \<open>FIRST+LAST\<close>; it
  does not give the value-dependent phases of the other frames, which this model treats
  as stateless.
\<close>

definition ev_phase :: "ev \<Rightarrow> u32" where
  "ev_phase e =
     (if cmd e = EV_NOFF then EV_PHASE_LAST
      else if cmd e = EV_NON then EV_PHASE_FIRST
      else if cmd e = EV_KAT then EV_PHASE_NEXT
      else EV_PHASE_FIRST OR EV_PHASE_LAST)"

text \<open>
  Modelled from the spec: \<^verbatim>\<open>ev_match\<close> of \<^verbatim>\<open>ev.c\<close>, used where a concrete event
  is evaluated.  The key of an event is its command and its discriminating fields: the
  note number for the note family, the controller number for controllers, channel and
  device for voice events, the command only for tempo and time signature.
\<close>

definition ev_match :: "ev \<Rightarrow> ev \<Rightarrow> bool" where
  "ev_match a b =
     (if EV_ISNOTE a then
        EV_ISNOTE b \<and> dev a = dev b \<and> ch a = ch b \<and> v0 a = v0 b
      else if cmd a = EV_TEMPO \<or> cmd a = EV_TIMESIG then cmd b = cmd a
      else if cmd a = EV_CTL \<or> cmd a = EV_XCTL then
        cmd b = cmd a \<and> dev a = dev b \<and> ch a = ch b \<and> v0 a = v0 b
      else cmd b = cmd a \<and> dev a = dev b \<and> ch a = ch b)"

text \<open>
  A state is open for an event when it matches the event, is not terminated (its phase
  is not exactly \<open>LAST\<close>) and is not bogus: the test under which the loop of
  \<^verbatim>\<open>statelist_update\<close> stops at an existing state.
\<close>

definition matching_open :: "(ev \<Rightarrow> ev \<Rightarrow> bool) \<Rightarrow> ev \<Rightarrow> state \<Rightarrow> bool" where
  "matching_open em e st =
     (state_match em st e \<and> phase st \<noteq> EV_PHASE_LAST \<and> flags st AND STATE_BOGUS = 0)"

text \<open>Events and an empty state list used to evaluate the routines.\<close>

definition note_off_60 :: ev where
  "note_off_60 = \<lparr>cmd = EV_NOFF, dev = 0, ch = 0, v0 = 60, v1 = 0\<rparr>"

definition note_on :: "nat \<Rightarrow> ev" where
  "note_on n = \<lparr>cmd = EV_NON, dev = 0, ch = 0, v0 = n, v1 = 100\<rparr>"

definition key_at :: "nat \<Rightarrow> ev" where
  "key_at n = \<lparr>cmd = EV_KAT, dev = 0, ch = 0, v0 = n, v1 = 64\<rparr>"

definition prog_change :: ev where
  "prog_change = \<lparr>cmd = EV_PC, dev = 0, ch = 0, v0 = 5, v1 = 0\<rparr>"

definition empty_statelist :: statelist where
  "empty_statelist = \<lparr>first = [], changed = 0, serial = 0\<rparr>"

definition two_notes :: statelist where
  "two_notes =
     \<lparr>first = [\<lparr>slot = 80, ev = note_on 62, phase = 1, flags = 1\<rparr>,
               \<lparr>slot = 120, ev = note_on 60, phase = 1, flags = 1\<rparr>],
      changed = 0, serial = 0\<rparr>"

definition two_free :: pool where
  "two_free = \<lparr>pool_first = [40, 0], itemnum = 8, itemsize = 40\<rparr>"

definition rest_ev :: ev where
  "rest_ev = \<lparr>cmd = EV_NULL, dev = 0, ch = 0, v0 = 0, v1 = 0\<rparr>"

section \<open>Use of a pool by its clients\<close>

text \<open>
  A client makes a sequence of calls of \<^verbatim>\<open>pool_new\<close> and \<^verbatim>\<open>pool_del\<close>.  The
  entries it holds (acquired and not yet released) are the live entries.
\<close>

datatype pool_op = New | Del nat

fun pool_run :: "pool \<Rightarrow> nat list \<Rightarrow> pool_op list \<Rightarrow> error + (pool \<times> nat list)" where
  "pool_run o' live [] = Inr (o', live)"
| "pool_run o' live (New # ops) =
     (case pool_new o' of
        Inl err \<Rightarrow> Inl err
      | Inr (e, o'') \<Rightarrow> pool_run o'' (e # live) ops)"
| "pool_run o' live (Del p # ops) = pool_run (pool_del o' p) (remove1 p live) ops"

text \<open>
  The calls respect the capacity \<open>n\<close> when \<^verbatim>\<open>pool_new\<close> is called only with fewer
  than \<open>n\<close> live entries, and \<^verbatim>\<open>pool_del\<close> only on a live entry.
\<close>

fun within_capacity :: "nat \<Rightarrow> pool \<Rightarrow> nat list \<Rightarrow> pool_op list \<Rightarrow> bool" where
  "within_capacity n o' live [] = True"
| "within_capacity n o' live (New # ops) =
     (length live < n \<and>
      (case pool_new o' of
         Inl err \<Rightarrow> True
       | Inr (e, o'') \<Rightarrow> within_capacity n o'' (e # live) ops))"
| "within_capacity n o' live (Del p # ops) =
     (p \<in> set live \<and> within_capacity n (pool_del o' p) (remove1 p live) ops)"

text \<open>The free entries and the live ones are all different, and there are \<open>n\<close> of them.\<close>

definition pool_inv :: "nat \<Rightarrow> pool \<Rightarrow> nat list \<Rightarrow> bool" where
  "pool_inv n o' live = (distinct (pool_first o' @ live) \<and> length (pool_first o' @ live) = n)"

section \<open>Timeouts (timo.c)\<close>

text \<open>
  A \<^verbatim>\<open>struct timo\<close> holds its callback with the argument, its expiry \<^verbatim>\<open>val\<close> and
  the flag \<^verbatim>\<open>set\<close> (here \<open>set_flag\<close>).  A timeout is named by its address; the
  structures are kept in the store \<open>timos\<close>.  The queue is linked through the field
  \<^verbatim>\<open>next\<close>; the model keeps it as the list of the addresses in link order.
  \<^verbatim>\<open>unsigned\<close> is 32 bits wide and \<^verbatim>\<open>int diff = a - b\<close> reads the difference of
  two \<^verbatim>\<open>unsigned\<close> as a signed number (\<open>sint\<close>).  The checks under
  \<^verbatim>\<open>#ifdef TIMO_DEBUG\<close> are not compiled in.

  The state is extended by \<open>user\<close>, the state of the modules that own the callbacks.
  A call \<^verbatim>\<open>to->cb(to->arg)\<close> is \<open>call (cb to) (arg to)\<close> for the parameter
  \<open>call\<close>; a callback may change the timeouts and the queue.
\<close>

record timo =
  cb :: nat
  arg :: nat
  val :: u32
  set_flag :: u32

record 'u timo_state =
  timos :: "nat \<Rightarrow> timo"
  timo_queue :: "nat list"
  timo_abstime :: u32
  user :: 'u

definition timo_set :: "'u timo_state \<Rightarrow> nat \<Rightarrow> nat \<Rightarrow> nat \<Rightarrow> 'u timo_state" where
  "timo_set s o' c a = s\<lparr>timos := (timos s)(o' := (timos s o')\<lparr>cb := c, arg := a, set_flag := 0\<rparr>)\<rparr>"

text \<open>
  The loop of \<^verbatim>\<open>timo_add\<close>: \<^verbatim>\<open>i\<close> walks the queue up to the first timeout whose
  \<^verbatim>\<open>val\<close> lies after the new one, and the new timeout is linked in there.
\<close>

fun timo_insert :: "(nat \<Rightarrow> timo) \<Rightarrow> u32 \<Rightarrow> nat \<Rightarrow> nat list \<Rightarrow> nat list" where
  "timo_insert ts v o' [] = [o']"
| "timo_insert ts v o' (i # rest) =
     (if 0 < sint (val (ts i) - v) then o' # i # rest
      else i # timo_insert ts v o' rest)"

definition timo_add :: "'u timo_state \<Rightarrow> nat \<Rightarrow> u32 \<Rightarrow> 'u timo_state" where
  "timo_add s o' delta =
     (let v = timo_abstime s + delta;
          q = timo_insert (timos s) v o' (timo_queue s)
      in s\<lparr>timos := (timos s)(o' := (timos s o')\<lparr>val := v, set_flag := 1\<rparr>),
            timo_queue := q\<rparr>)"

text \<open>
  The loop of \<^verbatim>\<open>timo_update\<close>.  A callback may schedule its timeout again, so
  the loop need not end: the result is \<open>None\<close> when it does not.
\<close>

partial_function (option) timo_update_loop ::
  "(nat \<Rightarrow> nat \<Rightarrow> 'u timo_state \<Rightarrow> 'u timo_state) \<Rightarrow> 'u timo_state \<Rightarrow> 'u timo_state option"
where
  "timo_update_loop call s =
     (case timo_queue s of
        [] \<Rightarrow> Some s
      | to # rest \<Rightarrow>
          if 0 < sint (val (timos s to) - timo_abstime s) then Some s
          else timo_update_loop call
                 (call (cb (timos s to)) (arg (timos s to))
                    (s\<lparr>timo_queue := rest,
                       timos := (timos s)(to := (timos s to)\<lparr>set_flag := 0\<rparr>)\<rparr>)))"

declare timo_update_loop.simps [code]

definition timo_update ::
  "(nat \<Rightarrow> nat \<Rightarrow> 'u timo_state \<Rightarrow> 'u timo_state) \<Rightarrow> 'u timo_state \<Rightarrow> u32
     \<Rightarrow> 'u timo_state option" where
  "timo_update call s delta = timo_update_loop call (s\<lparr>timo_abstime := timo_abstime s + delta\<rparr>)"

definition timo_init :: "'u \<Rightarrow> 'u timo_state" where
  "timo_init u =
     \<lparr>timos = (\<lambda>a. \<lparr>cb = 0, arg = 0, val = 0, set_flag = 0\<rparr>), timo_queue = [],
      timo_abstime = 0, user = u\<rparr>"

text \<open>
  A callback that only records its call: the state of its module is the list of the
  arguments it was called with, in the order of the calls.
\<close>

definition record_call :: "nat \<Rightarrow> nat \<Rightarrow> nat list timo_state \<Rightarrow> nat list timo_state" where
  "record_call c a s = s\<lparr>user := user s @ [a]\<rparr>"

text \<open>
  Two timeouts \<open>T1\<close> (at address 1) and \<open>T2\<close> (at address 2) with recording
  callbacks, scheduled at the time \<open>t\<close> with the deltas 500 and 1500.
\<close>

definition two_timeouts :: "u32 \<Rightarrow> nat list timo_state" where
  "two_timeouts t =
     timo_add (timo_add (timo_set (timo_set ((timo_init [])\<lparr>timo_abstime := t\<rparr>) 1 0 1) 2 0 2)
                 1 500) 2 1500"

section \<open>Tracks (track.c)\<close>

text \<open>
  Modelled from the spec: \<^verbatim>\<open>track.h\<close> is not among the sources.  A
  \<^verbatim>\<open>struct seqev\<close> has a delta, an event and the links \<^verbatim>\<open>next\<close> and
  \<^verbatim>\<open>prev\<close>; a \<^verbatim>\<open>struct track\<close> has the inline sentinel \<^verbatim>\<open>eot\<close> and the pointer
  \<^verbatim>\<open>first\<close>.

  The events of a track are objects of a store, named by their addresses.  The link
  \<^verbatim>\<open>prev\<close> has the type \<^verbatim>\<open>struct seqev **\<close>: it points to the place that holds
  the pointer to the event, which is the field \<^verbatim>\<open>first\<close> of the track or the field
  \<^verbatim>\<open>next\<close> of the event before.
\<close>

datatype ref = Ref_first | Ref_next nat

record seqev =
  delta :: u32
  ev_seqev :: ev
  nxt :: "nat option"
  prev :: ref

text \<open>
  The store of the events together with one track: \<open>track_first\<close> is \<^verbatim>\<open>o->first\<close>
  and \<open>eot\<close> is the address of \<^verbatim>\<open>o->eot\<close>.
\<close>

record track =
  seqevs :: "nat \<Rightarrow> seqev"
  track_first :: "nat option"
  eot :: nat

definition seqev_upd :: "track \<Rightarrow> nat \<Rightarrow> (seqev \<Rightarrow> seqev) \<Rightarrow> track" where
  "seqev_upd m a f = m\<lparr>seqevs := (seqevs m)(a := f (seqevs m a))\<rparr>"

text \<open>The assignment \<^verbatim>\<open>*r = p\<close> through a \<^verbatim>\<open>struct seqev **\<close>.\<close>

definition store_ref :: "track \<Rightarrow> ref \<Rightarrow> nat option \<Rightarrow> track" where
  "store_ref m r p =
     (case r of
        Ref_first \<Rightarrow> m\<lparr>track_first := p\<rparr>
      | Ref_next a \<Rightarrow> seqev_upd m a (\<lambda>s. s\<lparr>nxt := p\<rparr>))"

definition track_init :: "track \<Rightarrow> track" where
  "track_init o' =
     (seqev_upd o' (eot o')
        (\<lambda>s. s\<lparr>ev_seqev := (ev_seqev s)\<lparr>cmd := EV_NULL\<rparr>, delta := 0, nxt := None,
                prev := Ref_first\<rparr>))
     \<lparr>track_first := Some (eot o')\<rparr>"

text \<open>\<^verbatim>\<open>seqev_ins(pos, se)\<close>, one assignment after the other.\<close>

definition seqev_ins :: "track \<Rightarrow> nat \<Rightarrow> nat \<Rightarrow> track" where
  "seqev_ins m pos se =
     (let m1 = seqev_upd m se (\<lambda>s. s\<lparr>delta := delta (seqevs m pos)\<rparr>);
          m2 = seqev_upd m1 pos (\<lambda>s. s\<lparr>delta := 0\<rparr>);
          m3 = seqev_upd m2 se (\<lambda>s. s\<lparr>nxt := Some pos\<rparr>);
          m4 = seqev_upd m3 se (\<lambda>s. s\<lparr>prev := prev (seqevs m3 pos)\<rparr>);
          m5 = store_ref m4 (prev (seqevs m4 se)) (Some se)
      in seqev_upd m5 pos (\<lambda>s. s\<lparr>prev := Ref_next se\<rparr>))"

text \<open>
  \<^verbatim>\<open>seqev_rm(pos)\<close>.  The check under \<^verbatim>\<open>#ifdef TRACK_DEBUG\<close> is not compiled
  in; without it, a \<^verbatim>\<open>pos\<close> whose \<^verbatim>\<open>next\<close> is \<^verbatim>\<open>NULL\<close> is read through.
\<close>

definition seqev_rm :: "track \<Rightarrow> nat \<Rightarrow> error + track" where
  "seqev_rm m pos =
     (case nxt (seqevs m pos) of
        None \<Rightarrow> Inl Null_dereference
      | Some n \<Rightarrow>
          (let m1 = seqev_upd m n (\<lambda>s. s\<lparr>delta := delta s + delta (seqevs m pos)\<rparr>);
               m2 = seqev_upd m1 pos (\<lambda>s. s\<lparr>delta := 0\<rparr>);
               m3 = store_ref m2 (prev (seqevs m2 pos)) (nxt (seqevs m2 pos))
           in (case nxt (seqevs m3 pos) of
                 None \<Rightarrow> Inl Null_dereference
               | Some n' \<Rightarrow> Inr (seqev_upd m3 n' (\<lambda>s. s\<lparr>prev := prev (seqevs m3 pos)\<rparr>)))))"

text \<open>
  The loop of \<^verbatim>\<open>track_numtic\<close> follows \<^verbatim>\<open>next\<close> up to \<^verbatim>\<open>NULL\<close> and adds the
  deltas in \<^verbatim>\<open>unsigned\<close> arithmetic.  On a store whose links form a cycle it does not
  end: the result is \<open>None\<close> then.
\<close>

partial_function (option) track_numtic_loop ::
  "(nat \<Rightarrow> seqev) \<Rightarrow> nat option \<Rightarrow> u32 \<Rightarrow> u32 option" where
  "track_numtic_loop h i ntics =
     (case i of
        None \<Rightarrow> Some ntics
      | Some a \<Rightarrow> track_numtic_loop h (nxt (h a)) (ntics + delta (h a)))"

declare track_numtic_loop.simps [code]

definition track_numtic :: "track \<Rightarrow> u32 option" where
  "track_numtic o' = track_numtic_loop (seqevs o') (track_first o') 0"

text \<open>
  The shape of a track.  \<open>seg h r p as q\<close>: starting at the pointer \<open>p\<close>, which is
  held at the place \<open>r\<close>, the links \<^verbatim>\<open>next\<close> run through the events \<open>as\<close> and
  arrive at the pointer \<open>q\<close>, and every \<^verbatim>\<open>prev\<close> points to the place that holds the
  pointer to its event.
\<close>

fun seg :: "(nat \<Rightarrow> seqev) \<Rightarrow> ref \<Rightarrow> nat option \<Rightarrow> nat list \<Rightarrow> nat option \<Rightarrow> bool" where
  "seg h r p [] q = (p = q)"
| "seg h r p (a # as) q = (p = Some a \<and> prev (h a) = r \<and> seg h (Ref_next a) (nxt (h a)) as q)"

text \<open>
  The track invariants: the events reached from \<^verbatim>\<open>first\<close> are \<open>as\<close>, all
  different, up to \<^verbatim>\<open>NULL\<close>; the last of them is the sentinel \<^verbatim>\<open>eot\<close>, which is
  the only one with the command \<^verbatim>\<open>EV_NULL\<close>.
\<close>

definition track_wf :: "track \<Rightarrow> nat list \<Rightarrow> bool" where
  "track_wf o' as =
     (seg (seqevs o') Ref_first (track_first o') as None \<and> distinct as \<and> as \<noteq> [] \<and>
      last as = eot o' \<and> cmd (ev_seqev (seqevs o' (eot o'))) = EV_NULL)"

text \<open>The sum of the deltas of the events \<open>as\<close>, in \<^verbatim>\<open>unsigned\<close> arithmetic.\<close>

definition sum_deltas :: "(nat \<Rightarrow> seqev) \<Rightarrow> nat list \<Rightarrow> u32" where
  "sum_deltas h as = sum_list (map (\<lambda>a. delta (h a)) as)"

fun insert_before :: "nat \<Rightarrow> nat \<Rightarrow> nat list \<Rightarrow> nat list" where
  "insert_before se pos [] = []"
| "insert_before se pos (a # as) =
     (if a = pos then se # a # as else a # insert_before se pos as)"

text \<open>The event after \<open>pos\<close> in the list \<open>as\<close>.\<close>

fun following :: "nat \<Rightarrow> nat list \<Rightarrow> nat option" where
  "following pos [] = None"
| "following pos [a] = None"
| "following pos (a # b # as) = (if a = pos then Some b else following pos (b # as))"

text \<open>
  A track of three events at the addresses 1, 2 and 3 with the deltas 10, 20 and 30,
  and the sentinel at the address 0 with the delta 40; an unlinked event at the
  address 4.
\<close>

definition sample_track :: track where
  "sample_track =
     \<lparr>seqevs = (\<lambda>a. \<lparr>delta = 0, ev_seqev = rest_ev, nxt = None, prev = Ref_first\<rparr>)
        (1 := \<lparr>delta = 10, ev_seqev = note_on 60, nxt = Some 2, prev = Ref_first\<rparr>,
         2 := \<lparr>delta = 20, ev_seqev = note_on 62, nxt = Some 3, prev = Ref_next 1\<rparr>,
         3 := \<lparr>delta = 30, ev_seqev = note_off_60, nxt = Some 0, prev = Ref_next 2\<rparr>,
         0 := \<lparr>delta = 40, ev_seqev = rest_ev, nxt = None, prev = Ref_next 3\<rparr>,
         4 := \<lparr>delta = 7, ev_seqev = prog_change, nxt = None, prev = Ref_first\<rparr>),
      track_first = Some 1, eot = 0\<rparr>"

section \<open>The multiplexer (mux.c)\<close>

subsection \<open>Phases and devices\<close>

text \<open>
  Modelled from the spec: \<^verbatim>\<open>mux.h\<close> is not among the sources.  The phases are
  numbered in the order of the phase machine given at the head of \<^verbatim>\<open>mux.c\<close>
  (\<open>STARTWAIT \<rightarrow> START \<rightarrow> FIRST_TIC \<rightarrow> NEXT_TIC \<rightarrow> STOP\<close>), \<^verbatim>\<open>MUX_STOP\<close> being the
  greatest: \<^verbatim>\<open>mux.c\<close> tests the running phases with
  \<^verbatim>\<open>mux_phase >= MUX_START && mux_phase <= MUX_NEXT\<close> and a phase other than
  \<open>STOP\<close> with \<^verbatim>\<open>mux_phase < MUX_STOP\<close>.
\<close>

definition MUX_STARTWAIT :: u32 where "MUX_STARTWAIT = 0"
definition MUX_START :: u32 where "MUX_START = 1"
definition MUX_FIRST :: u32 where "MUX_FIRST = 2"
definition MUX_NEXT :: u32 where "MUX_NEXT = 3"
definition MUX_STOP :: u32 where "MUX_STOP = 4"

text \<open>\<^verbatim>\<open>unsigned long\<close> is 64 bits wide (LP64); \<^verbatim>\<open>24000000UL / 3\<close>.\<close>

definition MUX_START_DELAY :: u64 where "MUX_START_DELAY = 24000000 div 3"

definition MIDIDEV_OSENSTO :: u32 where "MIDIDEV_OSENSTO = 250 * 24 * 1000"

definition MTC_STOP :: u32 where "MTC_STOP = 0"

text \<open>
  The fields of \<^verbatim>\<open>struct mididev\<close> (mididev.h) that \<^verbatim>\<open>mux.c\<close> reads and writes;
  of the MTC parser \<^verbatim>\<open>imtc\<close>, its fields \<^verbatim>\<open>timo\<close> and \<^verbatim>\<open>state\<close>.  The field
  \<open>out\<close> stands for the output side of the device: the bytes handed to it so far, in
  order.
\<close>

record mididev =
  dev_unit :: u32
  ticrate :: u32
  ticdelta :: u32
  sendclk :: u32
  sendmmc :: u32
  isensto :: u32
  osensto :: u32
  imtc_timo :: u32
  imtc_state :: u32
  out :: "8 word list"

text \<open>
  Modelled from the spec: the output routines of \<^verbatim>\<open>mididev.c\<close>, which is not among
  the sources.  They put the system real-time bytes of the MIDI wire protocol (clock
  \<open>0xF8\<close>, start \<open>0xFA\<close>, stop \<open>0xFC\<close>, active sensing \<open>0xFE\<close>) or the given
  bytes on the output of the device; flushing writes what is queued and adds nothing.
  \<^verbatim>\<open>mtc_timo\<close> resets the MTC parser to \<open>STOP\<close>.
\<close>

definition mididev_puttic :: "mididev \<Rightarrow> mididev" where
  "mididev_puttic d = d\<lparr>out := out d @ [0xF8]\<rparr>"

definition mididev_putstart :: "mididev \<Rightarrow> mididev" where
  "mididev_putstart d = d\<lparr>out := out d @ [0xFA]\<rparr>"

definition mididev_putstop :: "mididev \<Rightarrow> mididev" where
  "mididev_putstop d = d\<lparr>out := out d @ [0xFC]\<rparr>"

definition mididev_putack :: "mididev \<Rightarrow> mididev" where
  "mididev_putack d = d\<lparr>out := out d @ [0xFE]\<rparr>"

definition mididev_sendraw :: "mididev \<Rightarrow> 8 word list \<Rightarrow> mididev" where
  "mididev_sendraw d buf = d\<lparr>out := out d @ buf\<rparr>"

definition mididev_flush :: "mididev \<Rightarrow> mididev" where
  "mididev_flush d = d"

definition mtc_timo :: "mididev \<Rightarrow> mididev" where
  "mtc_timo d = d\<lparr>imtc_state := MTC_STOP\<rparr>"

subsection \<open>The state of the transport\<close>

text \<open>
  The callbacks of \<^verbatim>\<open>song.c\<close> are collaborators outside the sources.  The model
  records every call, in order, and takes the callbacks to leave the variables of the
  multiplexer as they are.
\<close>

datatype song_call = Song_startcb | Song_movecb | Song_stopcb | Song_gotocb u32 u32

text \<open>
  The global variables of \<^verbatim>\<open>mux.c\<close> and the device registry.  The devices are the
  list \<^verbatim>\<open>mididev_list\<close>; the pointers \<^verbatim>\<open>mididev_clksrc\<close> and
  \<^verbatim>\<open>mididev_mtcsrc\<close> are \<open>None\<close> for \<^verbatim>\<open>NULL\<close> or the position of the device in the
  list.  \<open>phases\<close> lists the values \<^verbatim>\<open>mux_chgphase\<close> has written to
  \<^verbatim>\<open>mux_phase\<close>, the changes it logs under \<^verbatim>\<open>MUX_DEBUG\<close>.
\<close>

record mux =
  mididev_list :: "mididev list"
  mididev_clksrc :: "nat option"
  mididev_mtcsrc :: "nat option"
  mux_ticrate :: u32
  mux_ticlength :: u64
  mux_curpos :: u64
  mux_nextpos :: u64
  mux_curtic :: u32
  mux_phase :: u32
  mux_reqphase :: u32
  mux_manualstart :: u32
  mux_wallclock :: u64
  song_calls :: "song_call list"
  phases :: "u32 list"

text \<open>
  The whole state is the state of the timeouts with the multiplexer as the part owned
  by the callbacks: a callback of a timeout may change any of it.
\<close>

type_synonym world = "mux timo_state"

definition mux_upd :: "(mux \<Rightarrow> mux) \<Rightarrow> world \<Rightarrow> world" where
  "mux_upd f s = s\<lparr>user := f (user s)\<rparr>"

definition song_call :: "song_call \<Rightarrow> world \<Rightarrow> world" where
  "song_call c = mux_upd (\<lambda>m. m\<lparr>song_calls := song_calls m @ [c]\<rparr>)"

definition mux_chgphase :: "u32 \<Rightarrow> world \<Rightarrow> world" where
  "mux_chgphase ph = mux_upd (\<lambda>m. m\<lparr>mux_phase := ph, phases := phases m @ [ph]\<rparr>)"

subsection \<open>Sending real-time events to the devices\<close>

text \<open>
  A loop over \<^verbatim>\<open>mididev_list\<close> that acts on the devices with \<^verbatim>\<open>sendclk\<close> set that
  are not the clock source; \<open>i\<close> is the position of the device at the head.
\<close>

fun clk_devs :: "(mididev \<Rightarrow> mididev) \<Rightarrow> nat option \<Rightarrow> nat \<Rightarrow> mididev list \<Rightarrow> mididev list" where
  "clk_devs f c i [] = []"
| "clk_devs f c i (d # ds) =
     (if sendclk d \<noteq> 0 \<and> Some i \<noteq> c then f d else d) # clk_devs f c (Suc i) ds"

text \<open>
  The inner loop of \<^verbatim>\<open>mux_sendtic\<close>.  With \<^verbatim>\<open>mux_ticrate = 0\<close> it does not end.
\<close>

partial_function (option) sendtic_loop :: "u32 \<Rightarrow> mididev \<Rightarrow> mididev option" where
  "sendtic_loop r d =
     (if r \<le> ticdelta d
      then sendtic_loop r ((mididev_puttic d)\<lparr>ticdelta := ticdelta d - r\<rparr>)
      else Some d)"

declare sendtic_loop.simps [code]

fun sendtic_devs :: "u32 \<Rightarrow> nat option \<Rightarrow> nat \<Rightarrow> mididev list \<Rightarrow> mididev list option" where
  "sendtic_devs r c i [] = Some []"
| "sendtic_devs r c i (d # ds) =
     (if sendclk d \<noteq> 0 \<and> Some i \<noteq> c then
        Option.bind (sendtic_loop r d)
          (\<lambda>d'. map_option ((#) (d'\<lparr>ticdelta := ticdelta d' + ticrate d'\<rparr>))
                   (sendtic_devs r c (Suc i) ds))
      else map_option ((#) d) (sendtic_devs r c (Suc i) ds))"

definition mux_sendtic :: "world \<Rightarrow> world option" where
  "mux_sendtic s =
     map_option (\<lambda>ds. mux_upd (\<lambda>m. m\<lparr>mididev_list := ds\<rparr>) s)
       (sendtic_devs (mux_ticrate (user s)) (mididev_clksrc (user s)) 0
          (mididev_list (user s)))"

definition mux_sendstart :: "world \<Rightarrow> world" where
  "mux_sendstart =
     mux_upd (\<lambda>m. m\<lparr>mididev_list :=
       clk_devs (\<lambda>d. mididev_putstart (mididev_puttic (d\<lparr>ticdelta := ticrate d\<rparr>)))
         (mididev_clksrc m) 0 (mididev_list m)\<rparr>)"

definition mux_sendstop :: "world \<Rightarrow> world" where
  "mux_sendstop =
     mux_upd (\<lambda>m. m\<lparr>mididev_list :=
       clk_devs mididev_putstop (mididev_clksrc m) 0 (mididev_list m)\<rparr>)"

definition mux_flush :: "world \<Rightarrow> world" where
  "mux_flush = mux_upd (\<lambda>m. m\<lparr>mididev_list := map mididev_flush (mididev_list m)\<rparr>)"

text \<open>The loop over the devices with \<^verbatim>\<open>sendmmc\<close> set that ends the requests.\<close>

definition send_mmc :: "8 word list \<Rightarrow> world \<Rightarrow> world" where
  "send_mmc buf =
     mux_upd (\<lambda>m. m\<lparr>mididev_list :=
       map (\<lambda>d. if sendmmc d \<noteq> 0 then mididev_sendraw d buf else d) (mididev_list m)\<rparr>)"

definition mmc_start :: "8 word list" where
  "mmc_start = [0xf0, 0x7f, 0x7f, 0x06, 0x02, 0xf7]"

definition mmc_stop :: "8 word list" where
  "mmc_stop = [0xf0, 0x7f, 0x7f, 0x06, 0x01, 0xf7]"

subsection \<open>Ticks\<close>

text \<open>The device \<^verbatim>\<open>mididev_clksrc\<close> points to, and an assignment to a field of it.\<close>

definition clksrc_dev :: "mux \<Rightarrow> nat \<Rightarrow> mididev" where
  "clksrc_dev m c = mididev_list m ! c"

definition clksrc_upd :: "nat \<Rightarrow> (mididev \<Rightarrow> mididev) \<Rightarrow> world \<Rightarrow> world" where
  "clksrc_upd c f =
     mux_upd (\<lambda>m. m\<lparr>mididev_list := (mididev_list m)[c := f (mididev_list m ! c)]\<rparr>)"

text \<open>
  The two conditionals in the body of the loop of \<^verbatim>\<open>mux_ticcb\<close>: the change of
  phase, then the tick itself.
\<close>

definition ticcb_phase :: "world \<Rightarrow> world" where
  "ticcb_phase s =
     (if mux_phase (user s) = MUX_FIRST then mux_chgphase MUX_NEXT s
      else if mux_phase (user s) = MUX_START then
        mux_chgphase MUX_FIRST
          (mux_upd (\<lambda>m. m\<lparr>mux_curpos := 0, mux_nextpos := mux_ticlength m\<rparr>) s)
      else s)"

definition ticcb_tick :: "world \<Rightarrow> world option" where
  "ticcb_tick s =
     (if mux_phase (user s) = MUX_NEXT then
        map_option (song_call Song_movecb)
          (mux_sendtic (mux_upd (\<lambda>m. m\<lparr>mux_curtic := mux_curtic m + 1\<rparr>) s))
      else if mux_phase (user s) = MUX_FIRST then
        map_option (song_call Song_startcb)
          (mux_sendtic (mux_upd (\<lambda>m. m\<lparr>mux_curtic := 0\<rparr>) s))
      else Some s)"

text \<open>
  \<^verbatim>\<open>mux_ticcb\<close>.  With a clock source whose \<^verbatim>\<open>ticrate\<close> is 0 the loop does not
  end.
\<close>

partial_function (option) mux_ticcb :: "world \<Rightarrow> world option" where
  "mux_ticcb s =
     (case mididev_clksrc (user s) of
        None \<Rightarrow> ticcb_tick (ticcb_phase s)
      | Some c \<Rightarrow>
          if ticdelta (clksrc_dev (user s) c) < ticrate (clksrc_dev (user s) c) then
            Some (clksrc_upd c (\<lambda>d. d\<lparr>ticdelta := ticdelta d + mux_ticrate (user s)\<rparr>) s)
          else
            Option.bind (ticcb_tick (ticcb_phase s))
              (\<lambda>s'. mux_ticcb (clksrc_upd c (\<lambda>d. d\<lparr>ticdelta := ticdelta d - ticrate d\<rparr>) s')))"

declare mux_ticcb.simps [code]

text \<open>
  The loop of \<^verbatim>\<open>mux_mtctick\<close>.  With \<^verbatim>\<open>mux_ticlength = 0\<close> it does not end.
\<close>

partial_function (option) mtctick_loop :: "world \<Rightarrow> world option" where
  "mtctick_loop s =
     (if mux_nextpos (user s) \<le> mux_curpos (user s) then
        Option.bind
          (let s1 = mux_upd (\<lambda>m. m\<lparr>mux_curpos := mux_curpos m - mux_nextpos m\<rparr>) s;
               s2 = mux_upd (\<lambda>m. m\<lparr>mux_nextpos := mux_ticlength m\<rparr>) s1
           in if mux_manualstart (user s2) = 0 \<or> mux_phase (user s2) \<noteq> MUX_START
              then mux_ticcb s2 else Some s2)
          mtctick_loop
      else Some s)"

declare mtctick_loop.simps [code]

text \<open>\<^verbatim>\<open>mux_mtctick(unsigned delta)\<close>: the delta is added to an \<^verbatim>\<open>unsigned long\<close>.\<close>

definition mux_mtctick :: "u32 \<Rightarrow> world \<Rightarrow> world option" where
  "mux_mtctick dlt s =
     mtctick_loop (mux_upd (\<lambda>m. m\<lparr>mux_curpos := mux_curpos m + ucast dlt\<rparr>) s)"

subsection \<open>Start and stop\<close>

definition LOC_MTC :: u32 where "LOC_MTC = 1"

definition mux_stopcb :: "world \<Rightarrow> world" where
  "mux_stopcb s =
     (let s1 = (if MUX_START \<le> mux_phase (user s) \<and> mux_phase (user s) \<le> MUX_NEXT
                then mux_sendstop s else s);
          s2 = mux_chgphase (mux_reqphase (user s1)) s1;
          s3 = song_call Song_stopcb s2
      in mux_flush s3)"

definition mux_mtcstop :: "world \<Rightarrow> world" where
  "mux_mtcstop s =
     (if mididev_clksrc (user s) \<noteq> None then s
      else if MUX_START \<le> mux_phase (user s) then mux_stopcb s
      else s)"

definition mux_startcb :: "world \<Rightarrow> world" where
  "mux_startcb s =
     (if mux_phase (user s) \<noteq> MUX_STARTWAIT then s
      else
        (let s1 = (if mididev_clksrc (user s) \<noteq> None then
                     song_call (Song_gotocb LOC_MTC 0)
                       (mux_upd (\<lambda>m. m\<lparr>mux_curpos := 0, mux_nextpos := mux_ticlength m\<rparr>) s)
                   else s);
             s2 = mux_chgphase MUX_START s1;
             s3 = mux_sendstart s2
         in mux_flush s3))"

text \<open>
  \<^verbatim>\<open>mux_mtcstart(mtcpos)\<close>.  The value \<^verbatim>\<open>song_gotocb\<close> returns is given by the
  parameter \<open>gotocb\<close>.
\<close>

definition mux_mtcstart :: "(u32 \<Rightarrow> u32 \<Rightarrow> u64) \<Rightarrow> u32 \<Rightarrow> world \<Rightarrow> error + world" where
  "mux_mtcstart gotocb mtcpos s =
     (let s1 = (if MUX_START \<le> mux_phase (user s) \<and> mux_phase (user s) \<le> MUX_NEXT
                then mux_mtcstop s else s)
      in if mux_phase (user s1) = MUX_STOP then Inr s1
         else if mididev_mtcsrc (user s1) \<noteq> None then
           (let s2 = song_call (Song_gotocb LOC_MTC mtcpos)
                       (mux_upd (\<lambda>m. m\<lparr>mux_curpos := gotocb LOC_MTC mtcpos\<rparr>) s1);
                s3 = mux_upd (\<lambda>m. m\<lparr>mux_nextpos := mux_ticlength m\<rparr>) s2
            in if mux_nextpos (user s3) \<le> mux_curpos (user s3)
               then Inl Offset_larger_than_tick
               else Inr (mux_startcb s3))
         else Inr (mux_startcb s1))"

text \<open>
  \<^verbatim>\<open>mux_startreq(manualstart)\<close>; the \<^verbatim>\<open>int\<close> argument is stored in an
  \<^verbatim>\<open>unsigned\<close>.
\<close>

definition mux_startreq :: "(u32 \<Rightarrow> u32 \<Rightarrow> u64) \<Rightarrow> u32 \<Rightarrow> world \<Rightarrow> error + world" where
  "mux_startreq gotocb manualstart s =
     (let s1 = mux_upd (\<lambda>m. m\<lparr>mux_manualstart := manualstart,
                                mux_reqphase := MUX_STARTWAIT\<rparr>) s
      in if mux_phase (user s1) \<noteq> MUX_STOP then Inl Bad_state_startreq
         else
           (let s2 = mux_chgphase MUX_STARTWAIT s1
            in case (if mididev_clksrc (user s2) = None \<and> mididev_mtcsrc (user s2) = None
                     then mux_mtcstart gotocb 0xdeadbeef
                            (mux_upd (\<lambda>m. m\<lparr>mux_curpos := 0,
                                             mux_nextpos := MUX_START_DELAY\<rparr>) s2)
                     else Inr (mux_upd (\<lambda>m. m\<lparr>mux_curpos := 0,
                                                mux_nextpos := mux_ticlength m\<rparr>) s2)) of
                 Inl err \<Rightarrow> Inl err
               | Inr s3 \<Rightarrow> Inr (send_mmc mmc_start s3)))"

definition mux_stopreq :: "world \<Rightarrow> world" where
  "mux_stopreq s =
     (let s1 = mux_upd (\<lambda>m. m\<lparr>mux_reqphase := MUX_STOP\<rparr>) s;
          s2 = (if mux_phase (user s1) < MUX_STOP then mux_stopcb s1 else s1)
      in send_mmc mmc_stop s2)"

subsection \<open>The timer callback\<close>

text \<open>
  The body of the loop of \<^verbatim>\<open>mux_timercb\<close> over the devices.  The timeouts are
  \<^verbatim>\<open>unsigned\<close> and \<open>delta\<close> is \<^verbatim>\<open>unsigned long\<close>: they are compared and
  subtracted as \<^verbatim>\<open>unsigned long\<close>.

  In the source text the closing brace of the block \<^verbatim>\<open>if (dev->osensto) {\<close> is
  missing, the comment line before \<^verbatim>\<open>if (dev->imtc.timo)\<close> standing in its place; as
  it is, the text is not a complete function.  The model reads the blocks as they are
  indented: the three timeouts are handled one after the other for each device, and
  the \<^verbatim>\<open>switch\<close> on the phase comes after the loop.
\<close>

definition timercb_dev :: "u64 \<Rightarrow> mididev \<Rightarrow> mididev" where
  "timercb_dev dlt d =
     (let d1 = (if isensto d \<noteq> 0 then
                  (if ucast (isensto d) \<le> dlt then d\<lparr>isensto := 0\<rparr>
                   else d\<lparr>isensto := ucast (ucast (isensto d) - dlt)\<rparr>)
                else d);
          d2 = (if osensto d1 \<noteq> 0 then
                  (if ucast (osensto d1) \<le> dlt
                   then (mididev_flush (mididev_putack d1))\<lparr>osensto := MIDIDEV_OSENSTO\<rparr>
                   else d1\<lparr>osensto := ucast (ucast (osensto d1) - dlt)\<rparr>)
                else d1)
      in if imtc_timo d2 \<noteq> 0 then
           (if ucast (imtc_timo d2) \<le> dlt then mtc_timo (d2\<lparr>imtc_timo := 0\<rparr>)
            else d2\<lparr>imtc_timo := ucast (ucast (imtc_timo d2) - dlt)\<rparr>)
         else d2)"

text \<open>
  \<^verbatim>\<open>mux_timercb(delta)\<close>.  The result is \<open>None\<close> when a loop does not end,
  \<open>Some (Inl e)\<close> for a panic and \<open>Some (Inr s)\<close> for the state on return.  The
  parameter \<open>call\<close> runs the callbacks of the expired timeouts.  The function is given
  in two parts: the wall clock, the timeouts and the loop over the devices; then the
  generation of the ticks when there is no external source.
\<close>

definition timercb_timeouts ::
  "(nat \<Rightarrow> nat \<Rightarrow> world \<Rightarrow> world) \<Rightarrow> u64 \<Rightarrow> world \<Rightarrow> world option" where
  "timercb_timeouts call dlt s =
     map_option
       (mux_upd (\<lambda>m. m\<lparr>mididev_list := map (timercb_dev dlt) (mididev_list m)\<rparr>))
       (timo_update call (mux_upd (\<lambda>m. m\<lparr>mux_wallclock := mux_wallclock m + dlt\<rparr>) s)
          (ucast dlt))"

definition timercb_ticks :: "u64 \<Rightarrow> world \<Rightarrow> (error + world) option" where
  "timercb_ticks dlt s =
     (if mididev_mtcsrc (user s) = None \<and> mididev_clksrc (user s) = None then
        (if mux_phase (user s) = MUX_STARTWAIT then
           (if mux_manualstart (user s) = 0 then Some (Inl Startwait_bad_state)
            else Some (Inr s))
         else if mux_phase (user s) = MUX_START then
           (let s1 = mux_upd (\<lambda>m. m\<lparr>mux_curpos := mux_curpos m + dlt\<rparr>) s
            in if mux_nextpos (user s1) \<le> mux_curpos (user s1) then
                 map_option Inr
                   (mux_mtctick 0
                      (mux_upd (\<lambda>m. m\<lparr>mux_curpos := 0, mux_nextpos := 0\<rparr>) s1))
               else Some (Inr s1))
         else if mux_phase (user s) = MUX_FIRST \<or> mux_phase (user s) = MUX_NEXT then
           map_option Inr (mux_mtctick (ucast dlt) s)
         else Some (Inr s))
      else Some (Inr s))"

definition mux_timercb ::
  "(nat \<Rightarrow> nat \<Rightarrow> world \<Rightarrow> world) \<Rightarrow> u64 \<Rightarrow> world \<Rightarrow> (error + world) option" where
  "mux_timercb call dlt s = Option.bind (timercb_timeouts call dlt s) (timercb_ticks dlt)"

text \<open>
  The timer callback called once for each delta of a list, as the event loop does;
  a panic or a loop without end ends the run.
\<close>

fun mux_timer_run ::
  "(nat \<Rightarrow> nat \<Rightarrow> world \<Rightarrow> world) \<Rightarrow> u64 list \<Rightarrow> world \<Rightarrow> (error + world) option" where
  "mux_timer_run call [] s = Some (Inr s)"
| "mux_timer_run call (dlt # ds) s =
     (case mux_timercb call dlt s of
        None \<Rightarrow> None
      | Some (Inl err) \<Rightarrow> Some (Inl err)
      | Some (Inr s') \<Rightarrow> mux_timer_run call ds s')"

text \<open>
  The state after \<^verbatim>\<open>mux_open\<close> with the devices \<open>ds\<close> registered and no clock or
  MTC source: default tempo and tick rate, phase \<open>STOP\<close>, no timeout scheduled.
\<close>

definition DEFAULT_USEC24 :: u64 where
  "DEFAULT_USEC24 = 60 * 24000000 div (120 * 24)"

definition DEFAULT_TPU :: u32 where "DEFAULT_TPU = 96"

definition mux_open :: "mididev list \<Rightarrow> world" where
  "mux_open ds =
     timo_init
       \<lparr>mididev_list = map (\<lambda>d. d\<lparr>ticdelta := ticrate d, isensto := 0,
                                  osensto := MIDIDEV_OSENSTO\<rparr>) ds,
        mididev_clksrc = None, mididev_mtcsrc = None,
        mux_ticrate = DEFAULT_TPU, mux_ticlength = DEFAULT_USEC24,
        mux_curpos = 0, mux_nextpos = 0, mux_curtic = 0,
        mux_phase = MUX_STOP, mux_reqphase = MUX_STOP, mux_manualstart = 1,
        mux_wallclock = 0, song_calls = [], phases = []\<rparr>"

text \<open>A device that sends MIDI clock, and callbacks of timeouts that do nothing.\<close>

definition clock_dev :: mididev where
  "clock_dev =
     \<lparr>dev_unit = 0, ticrate = 96, ticdelta = 96, sendclk = 1, sendmmc = 0, isensto = 0,
      osensto = MIDIDEV_OSENSTO, imtc_timo = 0, imtc_state = 0, out = []\<rparr>"

definition no_call :: "nat \<Rightarrow> nat \<Rightarrow> world \<Rightarrow> world" where
  "no_call c a s = s"

definition no_goto :: "u32 \<Rightarrow> u32 \<Rightarrow> u64" where
  "no_goto loc pos = 0"

text \<open>
  The transport after \<^verbatim>\<open>mux_open\<close> with one device that sends MIDI clock and a
  start request with the given \<^verbatim>\<open>manualstart\<close>; and the transport two ticks later,
  started with \<^verbatim>\<open>manualstart = 0\<close>.
\<close>

definition started :: "u32 \<Rightarrow> world" where
  "started ms =
     (case mux_startreq no_goto ms (mux_open [clock_dev]) of
        Inr s \<Rightarrow> s
      | Inl err \<Rightarrow> mux_open [clock_dev])"

definition playing :: world where
  "playing =
     (case mux_timer_run no_call [8000000, 500000] (started 0) of
        Some (Inr s) \<Rightarrow> s
      | _ \<Rightarrow> started 0)"

text \<open>
  The variables of the multiplexer other than the devices and the wall clock: what a
  callback of a timeout, which may send events to the devices, is taken to leave
  unchanged.
\<close>

definition transport :: "world \<Rightarrow> mux" where
  "transport s = (user s)\<lparr>mididev_list := [], mux_wallclock := 0\<rparr>"

text \<open>
  The transport runs on the internal timer: there is no clock source and no MTC
  source, the tick rate and the tick length are not 0.
\<close>

definition internal_clock :: "world \<Rightarrow> bool" where
  "internal_clock s =
     (mididev_clksrc (user s) = None \<and> mididev_mtcsrc (user s) = None \<and>
      mux_ticrate (user s) \<noteq> 0 \<and> mux_ticlength (user s) \<noteq> 0)"

text \<open>
  What is taken of the callbacks of the timeouts: they leave the transport as it is,
  and \<^verbatim>\<open>timo_update\<close> returns.
\<close>

definition callbacks_ok :: "(nat \<Rightarrow> nat \<Rightarrow> world \<Rightarrow> world) \<Rightarrow> bool" where
  "callbacks_ok call =
     ((\<forall>c a w. transport (call c a w) = transport w) \<and>
      (\<forall>w d. timo_update call w d \<noteq> None))"

text \<open>The sum of the deltas of a list of timer calls, as a number.\<close>

definition elapsed :: "u64 list \<Rightarrow> nat" where
  "elapsed ds = sum_list (map unat ds)"

section \<open>Properties of the state list\<close>

subsection \<open>Flag and phase bits\<close>

lemma flag_bits:
  "(f AND NOT STATE_NEW) AND STATE_NEW = 0"
  "(f OR STATE_CHANGED) AND STATE_CHANGED \<noteq> 0"
  "(f OR STATE_BOGUS) AND STATE_BOGUS \<noteq> 0"
  "(f OR STATE_CHANGED) AND STATE_NEW = f AND STATE_NEW"
  "(f OR STATE_CHANGED) AND STATE_BOGUS = f AND STATE_BOGUS"
  "(f OR STATE_BOGUS) AND STATE_NEW = f AND STATE_NEW"
  "STATE_NEW AND STATE_NEW \<noteq> 0"
  "(STATE_NEW OR STATE_NESTED) AND STATE_NEW \<noteq> 0"
  "STATE_NEW OR STATE_NESTED \<noteq> STATE_NEW"
  "STATE_NEW AND STATE_BOGUS = 0"
  "(f AND NOT STATE_CHANGED) AND STATE_CHANGED = 0"
  "STATE_NEW \<noteq> 0"
  "STATE_CHANGED \<noteq> 0"
  "STATE_BOGUS \<noteq> 0"
  unfolding STATE_NEW_def STATE_CHANGED_def STATE_BOGUS_def STATE_NESTED_def
  by (simp_all add: bit.conj_disj_distrib2 word_bw_assocs)

lemma not_new_neq_new: "f AND NOT STATE_NEW \<noteq> STATE_NEW"
proof
  assume eq: "f AND NOT STATE_NEW = STATE_NEW"
  have "(f AND NOT STATE_NEW) AND STATE_NEW = 0"
    by (rule flag_bits(1))
  with eq have "STATE_NEW AND STATE_NEW = 0"
    by simp
  then show False
    by (simp add: STATE_NEW_def)
qed

lemma phase_bits:
  "(EV_PHASE_NEXT OR EV_PHASE_FIRST) AND NOT EV_PHASE_NEXT = EV_PHASE_FIRST"
  "(EV_PHASE_LAST OR EV_PHASE_FIRST) AND NOT EV_PHASE_NEXT = EV_PHASE_FIRST OR EV_PHASE_LAST"
  "EV_PHASE_FIRST AND EV_PHASE_FIRST \<noteq> 0"
  "(EV_PHASE_FIRST OR EV_PHASE_LAST) AND EV_PHASE_FIRST \<noteq> 0"
  "EV_PHASE_NEXT \<noteq> EV_PHASE_FIRST"
  "EV_PHASE_LAST \<noteq> EV_PHASE_FIRST"
  "EV_PHASE_NEXT \<noteq> EV_PHASE_LAST"
  "EV_PHASE_FIRST \<noteq> EV_PHASE_NEXT"
  "EV_PHASE_FIRST \<noteq> EV_PHASE_LAST"
  "EV_PHASE_LAST \<noteq> EV_PHASE_NEXT"
  "EV_PHASE_FIRST \<noteq> 0"
  unfolding EV_PHASE_FIRST_def EV_PHASE_NEXT_def EV_PHASE_LAST_def
  by simp_all

subsection \<open>The loop of \<^verbatim>\<open>statelist_update\<close>\<close>

lemma update_loop_index:
  "update_loop em e pre xs pl = Inr (ys, i, pl') \<Longrightarrow> i < length ys"
  by (induction xs arbitrary: pre pl)
     (auto simp: state_new_def pool_new_def split: if_splits sum.splits list.splits prod.splits)

lemma update_loop_returns:
  "pool_first pl \<noteq> [] \<Longrightarrow> \<exists>r. update_loop em e pre xs pl = Inr r"
  by (induction xs arbitrary: pre pl)
     (auto simp: state_new_def state_del_def pool_new_def pool_del_def split: list.splits)

lemma update_loop_error_kind:
  "update_loop em e pre xs pl = Inl err \<Longrightarrow> err = Pool_is_empty"
  by (induction xs arbitrary: pre pl)
     (auto simp: state_new_def pool_new_def split: if_splits list.splits)

lemma update_loop_error:
  assumes "update_loop em e pre xs pl = Inl err"
  shows "err = Pool_is_empty \<and> pool_first pl = []"
proof -
  have "pool_first pl = []"
  proof (rule ccontr)
    assume "pool_first pl \<noteq> []"
    then obtain r where "update_loop em e pre xs pl = Inr r"
      using update_loop_returns by blast
    with assms show False
      by simp
  qed
  with assms show ?thesis
    by (simp add: update_loop_error_kind)
qed

lemma update_loop_new:
  "\<forall>s\<in>set xs. \<not> matching_open em e s \<Longrightarrow> update_loop em e pre xs pl = Inr (ys, i, pl')
     \<Longrightarrow> i = 0 \<and> flags (ys ! 0) = STATE_NEW"
  by (induction xs arbitrary: pre pl)
     (auto simp: state_new_def pool_new_def matching_open_def fresh_state_def
           split: if_splits sum.splits list.splits prod.splits)

lemma update_loop_cases:
  "update_loop em e pre xs pl = Inr (ys, i, pl') \<Longrightarrow>
     (i = 0 \<and> flags (ys ! 0) = STATE_NEW) \<or>
     (\<exists>s\<in>set xs. matching_open em e s \<and> ys ! i = s\<lparr>flags := flags s AND NOT STATE_NEW\<rparr>)"
  by (induction xs arbitrary: pre pl)
     (auto simp: state_new_def pool_new_def matching_open_def fresh_state_def nth_append
           split: if_splits sum.splits list.splits prod.splits)

subsection \<open>The switch of \<^verbatim>\<open>statelist_update\<close>\<close>

lemma update_switch_cases:
  assumes "update_switch e ph xs i pl = Inr (ys, j, ph', pl')" and "i < length xs"
  shows "j < length ys \<and>
         ((j = 0 \<and> flags (ys ! 0) = STATE_NEW OR STATE_NESTED \<and> flags (xs ! i) \<noteq> STATE_NEW) \<or>
          (j = i \<and> length ys = length xs \<and> slot (ys ! i) = slot (xs ! i) \<and>
           flags (ys ! i) AND STATE_NEW = flags (xs ! i) AND STATE_NEW))"
  using assms
  by (auto simp: update_switch_def state_new_def pool_new_def fresh_state_def flag_bits
           split: if_splits list.splits)

lemma update_switch_bogus:
  assumes "ph = EV_PHASE_NEXT \<or> ph = EV_PHASE_LAST" and "flags (xs ! i) = STATE_NEW"
  shows "update_switch e ph xs i pl =
           Inr (xs[i := (xs ! i)\<lparr>flags := STATE_NEW OR STATE_BOGUS\<rparr>], i,
                (ph OR EV_PHASE_FIRST) AND NOT EV_PHASE_NEXT, pl)"
  using assms by (auto simp: update_switch_def phase_bits)

subsection \<open>Claims about \<^verbatim>\<open>statelist_update\<close>\<close>

text \<open>
  Claim C3, as amended.  When an event of phase \<open>NEXT\<close> or \<open>LAST\<close> arrives and the
  list holds no open state matching it, \<^verbatim>\<open>statelist_update\<close> can only fail because
  the state pool is empty; when it returns, the returned state is a new state at the
  head of the list, it holds the event, its flags are exactly \<open>NEW|BOGUS|CHANGED\<close>
  (so \<open>BOGUS\<close> is set) and its phase is \<open>FIRST\<close> for a \<open>NEXT\<close> event and
  \<open>FIRST|LAST\<close> for a \<open>LAST\<close> event (so the \<open>FIRST\<close> bit is set).  The flags are
  not exactly \<open>BOGUS|NEW\<close>: \<^verbatim>\<open>state_copyev\<close> sets \<open>CHANGED\<close> as well.
\<close>

theorem statelist_update_bogus:
  assumes ph: "ep e = EV_PHASE_NEXT \<or> ep e = EV_PHASE_LAST"
    and nomatch: "\<forall>s\<in>set (first sl). \<not> matching_open em e s"
  shows "(\<forall>err. statelist_update ep em sl pl e = Inl err \<longrightarrow>
            err = Pool_is_empty \<and> pool_first pl = []) \<and>
         (\<forall>j sl' pl'. statelist_update ep em sl pl e = Inr (j, sl', pl') \<longrightarrow>
            j = 0 \<and> first sl' \<noteq> [] \<and> ev (first sl' ! j) = e \<and>
            flags (first sl' ! j) = STATE_NEW OR STATE_BOGUS OR STATE_CHANGED \<and>
            flags (first sl' ! j) AND STATE_BOGUS \<noteq> 0 \<and>
            phase (first sl' ! j) =
              (if ep e = EV_PHASE_NEXT then EV_PHASE_FIRST
               else EV_PHASE_FIRST OR EV_PHASE_LAST) \<and>
            phase (first sl' ! j) AND EV_PHASE_FIRST \<noteq> 0)"
proof (cases "update_loop em e [] (first sl) pl")
  case (Inl err)
  then show ?thesis
    using update_loop_error [OF Inl] by (simp add: statelist_update_def)
next
  case (Inr r)
  obtain xs i pl1 where r: "r = (xs, i, pl1)"
    by (cases r) auto
  have loop: "update_loop em e [] (first sl) pl = Inr (xs, i, pl1)"
    using Inr r by simp
  have i0: "i = 0" and new: "flags (xs ! 0) = STATE_NEW"
    using update_loop_new [OF nomatch loop] by simp_all
  have len: "0 < length xs"
    using update_loop_index [OF loop] i0 by simp
  have sw: "update_switch e (ep e) xs 0 pl1 =
              Inr (xs[0 := (xs ! 0)\<lparr>flags := STATE_NEW OR STATE_BOGUS\<rparr>], 0,
                   (ep e OR EV_PHASE_FIRST) AND NOT EV_PHASE_NEXT, pl1)"
    using update_switch_bogus [OF ph new] by simp
  have upd: "statelist_update ep em sl pl e =
               Inr (0, sl\<lparr>first := xs[0 := state_copyev ((xs ! 0)\<lparr>flags := STATE_NEW OR STATE_BOGUS\<rparr>)
                                             e ((ep e OR EV_PHASE_FIRST) AND NOT EV_PHASE_NEXT)],
                          changed := 1\<rparr>, pl1)"
    using loop sw len by (simp add: statelist_update_def i0)
  have bog: "(STATE_NEW OR (STATE_BOGUS OR STATE_CHANGED)) AND STATE_BOGUS \<noteq> 0"
    by (simp add: STATE_NEW_def STATE_BOGUS_def STATE_CHANGED_def)
  show ?thesis
    using ph len bog
    by (auto simp: upd state_copyev_def phase_bits or.assoc)
qed

theorem statelist_update_bogus_witness:
  "ev_phase note_off_60 = EV_PHASE_LAST \<and>
   statelist_update ev_phase ev_match empty_statelist (pool_init 40 4) note_off_60 =
     Inr (0, \<lparr>first = [\<lparr>slot = 120, ev = note_off_60, phase = 5, flags = 7\<rparr>],
              changed = 1, serial = 0\<rparr>,
          \<lparr>pool_first = [80, 40, 0], itemnum = 8, itemsize = 40\<rparr>) \<and>
   (7 :: u32) = STATE_NEW OR STATE_BOGUS OR STATE_CHANGED \<and>
   (5 :: u32) = EV_PHASE_FIRST OR EV_PHASE_LAST"
proof -
  have ph: "ev_phase note_off_60 = EV_PHASE_NEXT \<or> ev_phase note_off_60 = EV_PHASE_LAST"
    by (simp add: ev_phase_def note_off_60_def)
  have nomatch: "\<forall>s\<in>set (first empty_statelist). \<not> matching_open ev_match note_off_60 s"
    by (simp add: empty_statelist_def)
  have run: "statelist_update ev_phase ev_match empty_statelist (pool_init 40 4) note_off_60 =
     Inr (0, \<lparr>first = [\<lparr>slot = 120, ev = note_off_60, phase = 5, flags = 7\<rparr>],
              changed = 1, serial = 0\<rparr>,
          \<lparr>pool_first = [80, 40, 0], itemnum = 8, itemsize = 40\<rparr>)"
    by code_simp
  show ?thesis
    using statelist_update_bogus [where ep = ev_phase and e = note_off_60 and em = ev_match
        and sl = empty_statelist and pl = "pool_init 40 4", OF ph nomatch] run
    by (simp add: ev_phase_def note_off_60_def STATE_NEW_def STATE_BOGUS_def STATE_CHANGED_def
          EV_PHASE_FIRST_def EV_PHASE_LAST_def)
qed

text \<open>
  The claim as stated fails: on the empty list the note-off yields the flags
  \<open>NEW|BOGUS|CHANGED = 7\<close>, not \<open>BOGUS|NEW = 5\<close>.
\<close>

theorem statelist_update_bogus_counterexample:
  "statelist_update ev_phase ev_match empty_statelist (pool_init 40 4) note_off_60 =
     Inr (0, \<lparr>first = [\<lparr>slot = 120, ev = note_off_60, phase = 5, flags = 7\<rparr>],
              changed = 1, serial = 0\<rparr>,
          \<lparr>pool_first = [80, 40, 0], itemnum = 8, itemsize = 40\<rparr>) \<and>
   (7 :: u32) \<noteq> STATE_BOGUS OR STATE_NEW"
proof -
  have "statelist_update ev_phase ev_match empty_statelist (pool_init 40 4) note_off_60 =
     Inr (0, \<lparr>first = [\<lparr>slot = 120, ev = note_off_60, phase = 5, flags = 7\<rparr>],
              changed = 1, serial = 0\<rparr>,
          \<lparr>pool_first = [80, 40, 0], itemnum = 8, itemsize = 40\<rparr>)"
    by code_simp
  then show ?thesis
    by (simp add: STATE_NEW_def STATE_BOGUS_def)
qed

text \<open>
  How the loop is left: at a new state pushed at the head, when no open state
  matches; or at the first open state that matches, which keeps its entry.  The
  states before it that do not match stay before it, in order; those that match (they
  are terminated or bogus) are purged; the states after it are not visited.
\<close>

lemma update_loop_shape:
  "update_loop em e pre0 xs pl = Inr (ys, i, pl') \<Longrightarrow>
     (i = 0 \<and> flags (ys ! 0) = STATE_NEW \<and> (\<forall>s\<in>set xs. \<not> matching_open em e s)) \<or>
     (\<exists>pre st post. xs = pre @ st # post \<and> matching_open em e st \<and>
        (\<forall>s\<in>set pre. \<not> matching_open em e s) \<and>
        ys = pre0 @ filter (\<lambda>s. \<not> state_match em s e) pre @
               st\<lparr>flags := flags st AND NOT STATE_NEW\<rparr> # post \<and>
        i = length pre0 + length (filter (\<lambda>s. \<not> state_match em s e) pre))"
proof (induction xs arbitrary: pre0 pl)
  case Nil
  then show ?case
    by (auto simp: state_new_def pool_new_def fresh_state_def split: sum.splits list.splits)
next
  case (Cons st stnext)
  show ?case
  proof (cases "state_match em st e")
    case m: True
    show ?thesis
    proof (cases "\<not> (phase st = EV_PHASE_LAST) \<and> \<not> (flags st AND STATE_BOGUS \<noteq> 0)")
      case True
      then have "ys = pre0 @ st\<lparr>flags := flags st AND NOT STATE_NEW\<rparr> # stnext"
        and "i = length pre0"
        using Cons.prems m by simp_all
      moreover have "matching_open em e st"
        using True m by (simp add: matching_open_def)
      ultimately have "st # stnext = [] @ st # stnext \<and> matching_open em e st \<and>
        (\<forall>s\<in>set []. \<not> matching_open em e s) \<and>
        ys = pre0 @ filter (\<lambda>s. \<not> state_match em s e) [] @
               st\<lparr>flags := flags st AND NOT STATE_NEW\<rparr> # stnext \<and>
        i = length pre0 + length (filter (\<lambda>s. \<not> state_match em s e) [])"
        by simp
      then show ?thesis
        by blast
    next
      case False
      then have no: "\<not> matching_open em e st"
        by (auto simp: matching_open_def)
      from False m Cons.prems
      have "update_loop em e pre0 stnext (state_del pl st) = Inr (ys, i, pl')"
        by (auto split: if_splits)
      from Cons.IH [OF this] show ?thesis
      proof
        assume "i = 0 \<and> flags (ys ! 0) = STATE_NEW \<and> (\<forall>s\<in>set stnext. \<not> matching_open em e s)"
        then show ?thesis
          using no by simp
      next
        assume "\<exists>pre s post. stnext = pre @ s # post \<and> matching_open em e s \<and>
          (\<forall>s\<in>set pre. \<not> matching_open em e s) \<and>
          ys = pre0 @ filter (\<lambda>s. \<not> state_match em s e) pre @
                 s\<lparr>flags := flags s AND NOT STATE_NEW\<rparr> # post \<and>
          i = length pre0 + length (filter (\<lambda>s. \<not> state_match em s e) pre)"
        then obtain pre s post where
          "stnext = pre @ s # post" "matching_open em e s"
          "\<forall>s\<in>set pre. \<not> matching_open em e s"
          "ys = pre0 @ filter (\<lambda>s. \<not> state_match em s e) pre @
                 s\<lparr>flags := flags s AND NOT STATE_NEW\<rparr> # post"
          "i = length pre0 + length (filter (\<lambda>s. \<not> state_match em s e) pre)"
          by (elim exE conjE)
        then have "st # stnext = (st # pre) @ s # post \<and> matching_open em e s \<and>
          (\<forall>s\<in>set (st # pre). \<not> matching_open em e s) \<and>
          ys = pre0 @ filter (\<lambda>s. \<not> state_match em s e) (st # pre) @
                 s\<lparr>flags := flags s AND NOT STATE_NEW\<rparr> # post \<and>
          i = length pre0 + length (filter (\<lambda>s. \<not> state_match em s e) (st # pre))"
          using no m by simp
        then show ?thesis
          by blast
      qed
    qed
  next
    case False
    then have no: "\<not> matching_open em e st"
      by (simp add: matching_open_def)
    from False Cons.prems
    have "update_loop em e (pre0 @ [st]) stnext pl = Inr (ys, i, pl')"
      by simp
    from Cons.IH [OF this] show ?thesis
    proof
      assume "i = 0 \<and> flags (ys ! 0) = STATE_NEW \<and> (\<forall>s\<in>set stnext. \<not> matching_open em e s)"
      then show ?thesis
        using no by simp
    next
      assume "\<exists>pre s post. stnext = pre @ s # post \<and> matching_open em e s \<and>
        (\<forall>s\<in>set pre. \<not> matching_open em e s) \<and>
        ys = (pre0 @ [st]) @ filter (\<lambda>s. \<not> state_match em s e) pre @
               s\<lparr>flags := flags s AND NOT STATE_NEW\<rparr> # post \<and>
        i = length (pre0 @ [st]) + length (filter (\<lambda>s. \<not> state_match em s e) pre)"
      then obtain pre s post where
        "stnext = pre @ s # post" "matching_open em e s"
        "\<forall>s\<in>set pre. \<not> matching_open em e s"
        "ys = (pre0 @ [st]) @ filter (\<lambda>s. \<not> state_match em s e) pre @
               s\<lparr>flags := flags s AND NOT STATE_NEW\<rparr> # post"
        "i = length (pre0 @ [st]) + length (filter (\<lambda>s. \<not> state_match em s e) pre)"
        by (elim exE conjE)
      then have "st # stnext = (st # pre) @ s # post \<and> matching_open em e s \<and>
        (\<forall>s\<in>set (st # pre). \<not> matching_open em e s) \<and>
        ys = pre0 @ filter (\<lambda>s. \<not> state_match em s e) (st # pre) @
               s\<lparr>flags := flags s AND NOT STATE_NEW\<rparr> # post \<and>
        i = length pre0 + length (filter (\<lambda>s. \<not> state_match em s e) (st # pre))"
        using no False by simp
      then show ?thesis
        by blast
    qed
  qed
qed

text \<open>
  The switch at a state whose flags are not exactly \<open>NEW\<close>: an event of phase
  \<open>FIRST\<close> stacks a new state at the head; any other event leaves the list as it is
  and keeps the state.
\<close>

lemma update_switch_kept:
  assumes "update_switch e ph xs i pl = Inr (ys, j, ph', pl')"
    and "flags (xs ! i) \<noteq> STATE_NEW"
  shows "(ph = EV_PHASE_FIRST \<and> j = 0 \<and> flags (ys ! 0) = STATE_NEW OR STATE_NESTED) \<or>
         (ph \<noteq> EV_PHASE_FIRST \<and> ys = xs \<and> j = i \<and> pl' = pl \<and>
          ph' = (if ph = EV_PHASE_FIRST OR EV_PHASE_NEXT then EV_PHASE_NEXT else ph))"
proof -
  have p: "(EV_PHASE_FIRST OR EV_PHASE_NEXT) AND NOT EV_PHASE_FIRST = EV_PHASE_NEXT"
    "EV_PHASE_FIRST OR EV_PHASE_NEXT \<noteq> EV_PHASE_FIRST"
    "EV_PHASE_FIRST OR EV_PHASE_NEXT \<noteq> EV_PHASE_NEXT"
    "EV_PHASE_FIRST OR EV_PHASE_NEXT \<noteq> EV_PHASE_LAST"
    "EV_PHASE_FIRST OR EV_PHASE_LAST \<noteq> EV_PHASE_FIRST"
    "EV_PHASE_FIRST OR EV_PHASE_LAST \<noteq> EV_PHASE_NEXT"
    "EV_PHASE_FIRST OR EV_PHASE_LAST \<noteq> EV_PHASE_LAST"
    "EV_PHASE_FIRST OR EV_PHASE_LAST \<noteq> EV_PHASE_FIRST OR EV_PHASE_NEXT"
    "EV_PHASE_NEXT \<noteq> EV_PHASE_FIRST" "EV_PHASE_LAST \<noteq> EV_PHASE_FIRST"
    "EV_PHASE_LAST \<noteq> EV_PHASE_NEXT"
    by (simp_all add: EV_PHASE_FIRST_def EV_PHASE_NEXT_def EV_PHASE_LAST_def)
  show ?thesis
    using assms
    by (auto simp: update_switch_def state_new_def pool_new_def fresh_state_def
               p p(2-) [symmetric]
             split: if_splits list.splits)
qed

text \<open>The switch at a state whose flags are exactly \<open>NEW\<close> keeps the \<open>NEW\<close> bit.\<close>

lemma update_switch_new:
  assumes "update_switch e ph xs i pl = Inr (ys, j, ph', pl')"
    and "flags (xs ! i) = STATE_NEW" and "i < length xs"
  shows "j = i \<and> flags (ys ! j) AND STATE_NEW \<noteq> 0"
  using assms
  by (auto simp: update_switch_def flag_bits split: if_splits)

text \<open>
  Claim C5, as amended.  When \<^verbatim>\<open>statelist_update\<close> returns, the returned state is
  in the list, its stored event is the event given, its \<open>CHANGED\<close> flag is set and
  the \<^verbatim>\<open>changed\<close> field of the list is set.  A returned state with the \<open>NEW\<close>
  flag is the head of the list.  A returned state without it is the first open state
  of the list that matched the event, updated in place: it keeps its entry, the
  states before it that do not match the event stay before it in their order (those
  that match, which are terminated or bogus, are purged), and the states after it are
  left as they are.  Its position is the number of the states kept before it, so it is
  not moved to the head.
\<close>

theorem statelist_update_returned_state:
  assumes upd: "statelist_update ep em sl pl e = Inr (j, sl', pl')"
  shows "j < length (first sl') \<and> ev (first sl' ! j) = e \<and>
         flags (first sl' ! j) AND STATE_CHANGED \<noteq> 0 \<and> changed sl' = 1 \<and>
         (flags (first sl' ! j) AND STATE_NEW \<noteq> 0 \<longrightarrow> j = 0) \<and>
         (flags (first sl' ! j) AND STATE_NEW = 0 \<longrightarrow>
            (\<exists>pre st post.
               first sl = pre @ st # post \<and> matching_open em e st \<and>
               (\<forall>s\<in>set pre. \<not> matching_open em e s) \<and>
               first sl' =
                 filter (\<lambda>s. \<not> state_match em s e) pre @
                 st\<lparr>ev := e,
                    phase := (if ep e = EV_PHASE_FIRST OR EV_PHASE_NEXT then EV_PHASE_NEXT
                              else ep e),
                    flags := (flags st AND NOT STATE_NEW) OR STATE_CHANGED\<rparr> # post \<and>
               j = length (filter (\<lambda>s. \<not> state_match em s e) pre)))"
proof -
  from upd obtain xs i pl1 where loop: "update_loop em e [] (first sl) pl = Inr (xs, i, pl1)"
    by (auto simp: statelist_update_def split: sum.splits)
  from upd loop obtain ys ph where
    sw: "update_switch e (ep e) xs i pl1 = Inr (ys, j, ph, pl')" and
    sl': "sl' = sl\<lparr>first := ys[j := state_copyev (ys ! j) e ph], changed := 1\<rparr>"
    by (auto simp: statelist_update_def split: sum.splits)
  have i: "i < length xs"
    by (rule update_loop_index [OF loop])
  note c = update_switch_cases [OF sw i]
  then have j: "j < length ys"
    by simp
  have st: "first sl' ! j = state_copyev (ys ! j) e ph"
    using j by (simp add: sl')
  have new: "flags (first sl' ! j) AND STATE_NEW = flags (ys ! j) AND STATE_NEW"
    by (simp add: st state_copyev_def flag_bits)
  have head: "flags (ys ! j) AND STATE_NEW \<noteq> 0 \<Longrightarrow> j = 0"
    using c update_loop_cases [OF loop] by (auto simp: flag_bits)
  have basic: "j < length (first sl') \<and> ev (first sl' ! j) = e \<and>
         flags (first sl' ! j) AND STATE_CHANGED \<noteq> 0 \<and> changed sl' = 1 \<and>
         (flags (first sl' ! j) AND STATE_NEW \<noteq> 0 \<longrightarrow> j = 0)"
    using j head
    by (auto simp: st new) (simp_all add: sl' state_copyev_def flag_bits)
  have reuse: "\<exists>pre st post.
               first sl = pre @ st # post \<and> matching_open em e st \<and>
               (\<forall>s\<in>set pre. \<not> matching_open em e s) \<and>
               first sl' =
                 filter (\<lambda>s. \<not> state_match em s e) pre @
                 st\<lparr>ev := e,
                    phase := (if ep e = EV_PHASE_FIRST OR EV_PHASE_NEXT then EV_PHASE_NEXT
                              else ep e),
                    flags := (flags st AND NOT STATE_NEW) OR STATE_CHANGED\<rparr> # post \<and>
               j = length (filter (\<lambda>s. \<not> state_match em s e) pre)"
    if old: "flags (first sl' ! j) AND STATE_NEW = 0"
  proof -
    from old have nn: "flags (ys ! j) AND STATE_NEW = 0"
      by (simp add: new)
    from update_loop_shape [OF loop] show ?thesis
    proof
      assume "i = 0 \<and> flags (xs ! 0) = STATE_NEW \<and>
              (\<forall>s\<in>set (first sl). \<not> matching_open em e s)"
      then have "flags (xs ! i) = STATE_NEW"
        by simp
      from update_switch_new [OF sw this i] nn show ?thesis
        by simp
    next
      assume "\<exists>pre st post. first sl = pre @ st # post \<and> matching_open em e st \<and>
        (\<forall>s\<in>set pre. \<not> matching_open em e s) \<and>
        xs = [] @ filter (\<lambda>s. \<not> state_match em s e) pre @
               st\<lparr>flags := flags st AND NOT STATE_NEW\<rparr> # post \<and>
        i = length ([] :: state list) + length (filter (\<lambda>s. \<not> state_match em s e) pre)"
      then obtain pre s post where
        sp: "first sl = pre @ s # post" and mo: "matching_open em e s" and
        np: "\<forall>s\<in>set pre. \<not> matching_open em e s" and
        xs: "xs = filter (\<lambda>s. \<not> state_match em s e) pre @
               s\<lparr>flags := flags s AND NOT STATE_NEW\<rparr> # post" and
        ii: "i = length (filter (\<lambda>s. \<not> state_match em s e) pre)"
        by (elim exE conjE) simp
      have xi: "xs ! i = s\<lparr>flags := flags s AND NOT STATE_NEW\<rparr>"
        by (simp add: xs ii)
      then have "flags (xs ! i) \<noteq> STATE_NEW"
        by (simp add: not_new_neq_new)
      from update_switch_kept [OF sw this] have
        k: "ys = xs" "j = i"
          "ph = (if ep e = EV_PHASE_FIRST OR EV_PHASE_NEXT then EV_PHASE_NEXT else ep e)"
        using nn by (auto simp: flag_bits)
      have "first sl' = xs[i := state_copyev (xs ! i) e ph]"
        by (simp add: sl' k(1,2))
      also have "\<dots> = filter (\<lambda>s. \<not> state_match em s e) pre @
                 state_copyev (s\<lparr>flags := flags s AND NOT STATE_NEW\<rparr>) e ph # post"
        unfolding xi unfolding xs ii by (rule list_update_length)
      finally have "first sl' =
                 filter (\<lambda>s. \<not> state_match em s e) pre @
                 s\<lparr>ev := e,
                    phase := (if ep e = EV_PHASE_FIRST OR EV_PHASE_NEXT then EV_PHASE_NEXT
                              else ep e),
                    flags := (flags s AND NOT STATE_NEW) OR STATE_CHANGED\<rparr> # post"
        by (simp add: state_copyev_def k(3))
      with sp mo np ii k(2) show ?thesis
        by blast
    qed
  qed
  from basic reuse show ?thesis
    by blast
qed

theorem statelist_update_returned_state_witness:
  "statelist_update ev_phase ev_match two_notes two_free (key_at 60) =
     Inr (1, \<lparr>first = [\<lparr>slot = 80, ev = note_on 62, phase = 1, flags = 1\<rparr>,
                       \<lparr>slot = 120, ev = key_at 60, phase = 2, flags = 2\<rparr>],
              changed = 1, serial = 0\<rparr>, two_free) \<and>
   (2 :: u32) AND STATE_CHANGED \<noteq> 0 \<and> (2 :: u32) AND STATE_NEW = 0 \<and>
   matching_open ev_match (key_at 60) \<lparr>slot = 120, ev = note_on 60, phase = 1, flags = 1\<rparr> \<and>
   \<not> state_match ev_match \<lparr>slot = 80, ev = note_on 62, phase = 1, flags = 1\<rparr> (key_at 60) \<and>
   (\<exists>pre st post.
      first two_notes = pre @ st # post \<and> matching_open ev_match (key_at 60) st \<and>
      [\<lparr>slot = 80, ev = note_on 62, phase = 1, flags = 1\<rparr>,
       \<lparr>slot = 120, ev = key_at 60, phase = 2, flags = 2\<rparr>] =
        filter (\<lambda>s. \<not> state_match ev_match s (key_at 60)) pre @
        st\<lparr>ev := key_at 60, phase := EV_PHASE_NEXT,
           flags := (flags st AND NOT STATE_NEW) OR STATE_CHANGED\<rparr> # post \<and>
      (1 :: nat) = length (filter (\<lambda>s. \<not> state_match ev_match s (key_at 60)) pre))"
proof -
  have run: "statelist_update ev_phase ev_match two_notes two_free (key_at 60) =
     Inr (1, \<lparr>first = [\<lparr>slot = 80, ev = note_on 62, phase = 1, flags = 1\<rparr>,
                       \<lparr>slot = 120, ev = key_at 60, phase = 2, flags = 2\<rparr>],
              changed = 1, serial = 0\<rparr>, two_free)"
    by code_simp
  have m: "matching_open ev_match (key_at 60)
             \<lparr>slot = 120, ev = note_on 60, phase = 1, flags = 1\<rparr>"
    "\<not> state_match ev_match \<lparr>slot = 80, ev = note_on 62, phase = 1, flags = 1\<rparr> (key_at 60)"
    by code_simp+
  have f: "(2 :: u32) AND STATE_CHANGED \<noteq> 0" "(2 :: u32) AND STATE_NEW = 0"
    by (simp_all add: STATE_CHANGED_def STATE_NEW_def)
  have p: "ev_phase (key_at 60) \<noteq> EV_PHASE_FIRST OR EV_PHASE_NEXT"
    "ev_phase (key_at 60) = EV_PHASE_NEXT"
    by code_simp+
  note th = statelist_update_returned_state [OF run]
  have "\<exists>pre st post.
      first two_notes = pre @ st # post \<and> matching_open ev_match (key_at 60) st \<and>
      [\<lparr>slot = 80, ev = note_on 62, phase = 1, flags = 1\<rparr>,
       \<lparr>slot = 120, ev = key_at 60, phase = 2, flags = 2\<rparr>] =
        filter (\<lambda>s. \<not> state_match ev_match s (key_at 60)) pre @
        st\<lparr>ev := key_at 60, phase := EV_PHASE_NEXT,
           flags := (flags st AND NOT STATE_NEW) OR STATE_CHANGED\<rparr> # post \<and>
      (1 :: nat) = length (filter (\<lambda>s. \<not> state_match ev_match s (key_at 60)) pre)"
    using th f(2) p by auto
  then show ?thesis
    using run m f by blast
qed

text \<open>
  The claim as stated fails: with two notes sounding, a key aftertouch for the note
  that is second in the list returns the state at position 1, which is not the head.
\<close>

theorem statelist_update_head_counterexample:
  "statelist_update ev_phase ev_match two_notes two_free (key_at 60) =
     Inr (1, \<lparr>first = [\<lparr>slot = 80, ev = note_on 62, phase = 1, flags = 1\<rparr>,
                       \<lparr>slot = 120, ev = key_at 60, phase = 2, flags = 2\<rparr>],
              changed = 1, serial = 0\<rparr>, two_free) \<and>
   (1 :: nat) \<noteq> 0"
proof -
  have "statelist_update ev_phase ev_match two_notes two_free (key_at 60) =
     Inr (1, \<lparr>first = [\<lparr>slot = 80, ev = note_on 62, phase = 1, flags = 1\<rparr>,
                       \<lparr>slot = 120, ev = key_at 60, phase = 2, flags = 2\<rparr>],
              changed = 1, serial = 0\<rparr>, two_free)"
    by code_simp
  then show ?thesis
    by simp
qed

subsection \<open>\<^verbatim>\<open>statelist_outdate\<close>\<close>

lemma outdate_loop_eq:
  "outdate_loop pre xs pl =
     (pre @ map (\<lambda>s. s\<lparr>flags := flags s AND NOT STATE_CHANGED\<rparr>)
              (filter (\<lambda>s. phase s \<noteq> EV_PHASE_LAST) xs),
      pl\<lparr>pool_first := rev (map slot (filter (\<lambda>s. phase s = EV_PHASE_LAST) xs)) @ pool_first pl\<rparr>)"
  by (induction xs arbitrary: pre pl) (simp_all add: state_del_def pool_del_def)

lemma statelist_update_changed:
  "statelist_update ep em sl pl e = Inr (j, sl', pl') \<Longrightarrow> changed sl' = 1"
  by (auto simp: statelist_update_def split: sum.splits)

lemma statelist_updates_changed:
  "es \<noteq> [] \<Longrightarrow> statelist_updates ep em sl pl es = Inr (sl', pl') \<Longrightarrow> changed sl' = 1"
proof (induction es arbitrary: sl pl)
  case Nil
  then show ?case by simp
next
  case (Cons e es)
  from Cons.prems(2) obtain j sl1 pl1 where
    one: "statelist_update ep em sl pl e = Inr (j, sl1, pl1)" and
    rest: "statelist_updates ep em sl1 pl1 es = Inr (sl', pl')"
    by (auto split: sum.splits)
  show ?case
  proof (cases es)
    case Nil
    with rest have "sl' = sl1" by simp
    with one show ?thesis by (simp add: statelist_update_changed)
  next
    case (Cons a as)
    then show ?thesis
      using Cons.IH [OF _ rest] by simp
  qed
qed

text \<open>
  Claim C4.  After a non-empty sequence of calls of \<^verbatim>\<open>statelist_update\<close> that
  all return, \<^verbatim>\<open>statelist_outdate\<close> leaves exactly the states whose phase is not
  exactly \<open>LAST\<close>, in their order and with \<open>CHANGED\<close> cleared, and gives the entries
  of the deleted ones back to the pool.  So it keeps every state of phase
  \<open>FIRST|LAST\<close>, and no remaining state has the phase \<open>LAST\<close> or the flag
  \<open>CHANGED\<close>.
\<close>

theorem statelist_outdate_after_updates:
  assumes "es \<noteq> []"
    and "statelist_updates ep em sl pl es = Inr (sl1, pl1)"
    and "statelist_outdate sl1 pl1 = (sl2, pl2)"
  shows "first sl2 = map (\<lambda>s. s\<lparr>flags := flags s AND NOT STATE_CHANGED\<rparr>)
                       (filter (\<lambda>s. phase s \<noteq> EV_PHASE_LAST) (first sl1)) \<and>
         pool_first pl2 =
           rev (map slot (filter (\<lambda>s. phase s = EV_PHASE_LAST) (first sl1))) @ pool_first pl1 \<and>
         changed sl2 = 0 \<and>
         (\<forall>s\<in>set (first sl1). phase s = EV_PHASE_FIRST OR EV_PHASE_LAST \<longrightarrow>
            s\<lparr>flags := flags s AND NOT STATE_CHANGED\<rparr> \<in> set (first sl2)) \<and>
         (\<forall>s\<in>set (first sl2). phase s \<noteq> EV_PHASE_LAST \<and> flags s AND STATE_CHANGED = 0)"
proof -
  have ch: "changed sl1 = 1"
    using assms(1,2) by (rule statelist_updates_changed)
  have fl: "EV_PHASE_FIRST OR EV_PHASE_LAST \<noteq> EV_PHASE_LAST"
    by (simp add: EV_PHASE_FIRST_def EV_PHASE_LAST_def)
  have sl2: "sl2 = sl1\<lparr>first := map (\<lambda>s. s\<lparr>flags := flags s AND NOT STATE_CHANGED\<rparr>)
                       (filter (\<lambda>s. phase s \<noteq> EV_PHASE_LAST) (first sl1)), changed := 0\<rparr>"
    and pl2: "pl2 = pl1\<lparr>pool_first :=
           rev (map slot (filter (\<lambda>s. phase s = EV_PHASE_LAST) (first sl1))) @ pool_first pl1\<rparr>"
    using assms(3) ch by (simp_all add: statelist_outdate_def outdate_loop_eq)
  show ?thesis
    unfolding sl2 pl2 using fl by (auto simp: flag_bits)
qed

theorem statelist_outdate_after_updates_witness:
  "[note_on 60, prog_change, note_off_60] \<noteq> [] \<and>
   statelist_updates ev_phase ev_match empty_statelist (pool_init 40 4)
       [note_on 60, prog_change, note_off_60] =
     Inr (\<lparr>first = [\<lparr>slot = 80, ev = prog_change, phase = 5, flags = 3\<rparr>,
                    \<lparr>slot = 120, ev = note_off_60, phase = 4, flags = 2\<rparr>],
           changed = 1, serial = 0\<rparr>, two_free) \<and>
   statelist_outdate
       \<lparr>first = [\<lparr>slot = 80, ev = prog_change, phase = 5, flags = 3\<rparr>,
                 \<lparr>slot = 120, ev = note_off_60, phase = 4, flags = 2\<rparr>],
        changed = 1, serial = 0\<rparr> two_free =
     (\<lparr>first = [\<lparr>slot = 80, ev = prog_change, phase = 5, flags = 1\<rparr>],
       changed = 0, serial = 0\<rparr>,
      \<lparr>pool_first = [120, 40, 0], itemnum = 8, itemsize = 40\<rparr>)"
proof -
  have ne: "[note_on 60, prog_change, note_off_60] \<noteq> []"
    by simp
  have run: "statelist_updates ev_phase ev_match empty_statelist (pool_init 40 4)
       [note_on 60, prog_change, note_off_60] =
     Inr (\<lparr>first = [\<lparr>slot = 80, ev = prog_change, phase = 5, flags = 3\<rparr>,
                    \<lparr>slot = 120, ev = note_off_60, phase = 4, flags = 2\<rparr>],
           changed = 1, serial = 0\<rparr>, two_free)"
    by code_simp
  have out: "statelist_outdate
       \<lparr>first = [\<lparr>slot = 80, ev = prog_change, phase = 5, flags = 3\<rparr>,
                 \<lparr>slot = 120, ev = note_off_60, phase = 4, flags = 2\<rparr>],
        changed = 1, serial = 0\<rparr> two_free =
     (\<lparr>first = [\<lparr>slot = 80, ev = prog_change, phase = 5, flags = 1\<rparr>],
       changed = 0, serial = 0\<rparr>,
      \<lparr>pool_first = [120, 40, 0], itemnum = 8, itemsize = 40\<rparr>)"
    by code_simp
  show ?thesis
    using statelist_outdate_after_updates [OF ne run out] ne run out
    by simp
qed

subsection \<open>\<^verbatim>\<open>state_restore\<close>\<close>

text \<open>
  Claim C6, as amended.  \<^verbatim>\<open>state_restore\<close> returns 0 and leaves \<^verbatim>\<open>*rev\<close> as it
  was for every state with the \<open>BOGUS\<close> flag, of the note family or not.  For a state
  of the note family without the \<open>BOGUS\<close> flag it does not return 0: it panics.  For
  every other state it returns 0, writing nothing, when the frame is terminated and
  not stateless (\<open>LAST\<close> without \<open>FIRST\<close>), and otherwise writes the state's event to
  \<^verbatim>\<open>*rev\<close> and returns 1.
\<close>

theorem state_restore_cases:
  "(flags st AND STATE_BOGUS \<noteq> 0 \<longrightarrow> state_restore st rv = Inr (0, rv)) \<and>
   (flags st AND STATE_BOGUS = 0 \<and> EV_ISNOTE (ev st) \<longrightarrow>
      state_restore st rv = Inl Cant_restore_note) \<and>
   (flags st AND STATE_BOGUS = 0 \<and> \<not> EV_ISNOTE (ev st) \<and>
    phase st AND EV_PHASE_LAST \<noteq> 0 \<and> phase st AND EV_PHASE_FIRST = 0 \<longrightarrow>
      state_restore st rv = Inr (0, rv)) \<and>
   (flags st AND STATE_BOGUS = 0 \<and> \<not> EV_ISNOTE (ev st) \<and>
    \<not> (phase st AND EV_PHASE_LAST \<noteq> 0 \<and> phase st AND EV_PHASE_FIRST = 0) \<longrightarrow>
      state_restore st rv = Inr (1, ev st))"
  by (simp add: state_restore_def)

theorem state_restore_cases_witness:
  "state_restore \<lparr>slot = 0, ev = note_off_60, phase = 5, flags = 7\<rparr> rest_ev = Inr (0, rest_ev) \<and>
   state_restore \<lparr>slot = 0, ev = note_on 60, phase = 1, flags = 3\<rparr> rest_ev =
     Inl Cant_restore_note \<and>
   state_restore \<lparr>slot = 0, ev = \<lparr>cmd = EV_BEND, dev = 0, ch = 0, v0 = 8192, v1 = 0\<rparr>,
                   phase = 4, flags = 2\<rparr> rest_ev = Inr (0, rest_ev) \<and>
   state_restore \<lparr>slot = 0, ev = prog_change, phase = 5, flags = 0\<rparr> rest_ev =
     Inr (1, prog_change)"
proof -
  have b: "(7 :: u32) AND STATE_BOGUS \<noteq> 0" "(3 :: u32) AND STATE_BOGUS = 0"
    "(2 :: u32) AND STATE_BOGUS = 0" "(0 :: u32) AND STATE_BOGUS = 0"
    by (simp_all add: STATE_BOGUS_def)
  have n: "EV_ISNOTE (note_on 60)" "\<not> EV_ISNOTE prog_change"
    "\<not> EV_ISNOTE \<lparr>cmd = EV_BEND, dev = 0, ch = 0, v0 = 8192, v1 = 0\<rparr>"
    by (simp_all add: EV_ISNOTE_def note_on_def prog_change_def)
  have p: "(4 :: u32) AND EV_PHASE_LAST \<noteq> 0" "(4 :: u32) AND EV_PHASE_FIRST = 0"
    "(5 :: u32) AND EV_PHASE_FIRST \<noteq> 0"
    by (simp_all add: EV_PHASE_LAST_def EV_PHASE_FIRST_def)
  show ?thesis
    using
      state_restore_cases [of "\<lparr>slot = 0, ev = note_off_60, phase = 5, flags = 7\<rparr>" rest_ev]
      state_restore_cases [of "\<lparr>slot = 0, ev = note_on 60, phase = 1, flags = 3\<rparr>" rest_ev]
      state_restore_cases [of "\<lparr>slot = 0, ev = \<lparr>cmd = EV_BEND, dev = 0, ch = 0, v0 = 8192,
                                 v1 = 0\<rparr>, phase = 4, flags = 2\<rparr>" rest_ev]
      state_restore_cases [of "\<lparr>slot = 0, ev = prog_change, phase = 5, flags = 0\<rparr>" rest_ev]
      b n p
    by simp
qed

text \<open>
  The claim as stated fails for the note family: a sounding note (not bogus) makes
  \<^verbatim>\<open>state_restore\<close> panic instead of returning 0.
\<close>

theorem state_restore_note_counterexample:
  "EV_ISNOTE (ev \<lparr>slot = 0, ev = note_on 60, phase = 1, flags = 3\<rparr>) \<and>
   state_restore \<lparr>slot = 0, ev = note_on 60, phase = 1, flags = 3\<rparr> rest_ev =
     Inl Cant_restore_note \<and>
   state_restore \<lparr>slot = 0, ev = note_on 60, phase = 1, flags = 3\<rparr> rest_ev \<noteq>
     Inr (0, rest_ev)"
  by (simp add: state_restore_def EV_ISNOTE_def note_on_def STATE_BOGUS_def)

section \<open>Properties of the pool\<close>

lemma pool_init_loop_itemsize: "itemsize (pool_init_loop i p o') = itemsize o'"
  by (induction i arbitrary: p o') simp_all

lemma pool_init_loop_first:
  "pool_first (pool_init_loop i p o') =
     rev (map (\<lambda>k. p + k * unat (itemsize o')) [0..<i]) @ pool_first o'"
proof (induction i arbitrary: p o')
  case 0
  then show ?case by simp
next
  case (Suc i)
  have "map (\<lambda>k. p + k * unat (itemsize o')) [0..<Suc i] =
          p # map (\<lambda>k. p + unat (itemsize o') + k * unat (itemsize o')) [0..<i]"
    by (simp add: upt_conv_Cons map_Suc_upt [symmetric] del: upt_Suc)
  then show ?case
    by (simp add: Suc.IH del: upt_Suc)
qed

lemma pool_roundsize_pos:
  assumes "unat isz + 3 < 2 ^ 32"
  shows "0 < unat (pool_roundsize isz)"
proof -
  define s :: u32 where "s = (if isz < 8 then 8 else isz)"
  have s8: "8 \<le> unat s"
    by (simp add: s_def word_less_nat_alt)
  have sle: "unat s + 3 < 2 ^ 32"
    using assms by (simp add: s_def)
  have u: "unat (s + 3) = unat s + 3"
    using sle by (simp add: unat_word_ariths)
  have "s + 3 AND NOT 3 \<noteq> 0"
  proof
    assume z: "s + 3 AND NOT 3 = 0"
    have "(s + 3 AND NOT 3) OR (s + 3 AND 3) = s + 3"
      by (metis bit.conj_disj_distrib bit.disj_cancel_left bit.conj_one_right)
    with z have "s + 3 = (s + 3) AND 3"
      by simp
    moreover have "(s + 3) AND 3 \<le> 3"
      by (rule word_and_le1)
    ultimately have "s + 3 \<le> 3"
      by simp
    then have "unat (s + 3) \<le> 3"
      by (simp add: word_le_nat_alt)
    with u s8 show False
      by simp
  qed
  then show ?thesis
    by (simp add: pool_roundsize_def s_def [symmetric] Let_def unat_gt_0)
qed

lemma pool_init_inv:
  assumes "unat isz + 3 < 2 ^ 32"
  shows "pool_inv (unat n) (pool_init isz n) []"
proof -
  let ?sz = "unat (pool_roundsize isz)"
  have first: "pool_first (pool_init isz n) = rev (map (\<lambda>k. k * ?sz) [0..<unat n])"
    by (simp add: pool_init_def pool_init_loop_first)
  have "inj_on (\<lambda>k. k * ?sz) (set [0..<unat n])"
    using pool_roundsize_pos [OF assms] by (auto intro: inj_onI)
  then have "distinct (map (\<lambda>k. k * ?sz) [0..<unat n])"
    by (simp add: distinct_map)
  then show ?thesis
    by (simp add: pool_inv_def first)
qed

lemma pool_run_inv:
  "pool_inv n o' live \<Longrightarrow> within_capacity n o' live ops \<Longrightarrow>
     \<exists>o'' live'. pool_run o' live ops = Inr (o'', live') \<and> pool_inv n o'' live'"
proof (induction ops arbitrary: o' live)
  case Nil
  then show ?case by simp
next
  case (Cons op ops)
  show ?case
  proof (cases op)
    case New
    from Cons.prems New have lt: "length live < n"
      by simp
    with Cons.prems(1) obtain e rest where fr: "pool_first o' = e # rest"
      by (cases "pool_first o'") (auto simp: pool_inv_def)
    then have new: "pool_new o' = Inr (e, o'\<lparr>pool_first := rest\<rparr>)"
      by (simp add: pool_new_def)
    have inv: "pool_inv n (o'\<lparr>pool_first := rest\<rparr>) (e # live)"
      using Cons.prems(1) fr by (auto simp: pool_inv_def)
    have cap: "within_capacity n (o'\<lparr>pool_first := rest\<rparr>) (e # live) ops"
      using Cons.prems(2) New new by simp
    show ?thesis
      using Cons.IH [OF inv cap] New new by simp
  next
    case (Del p)
    from Cons.prems Del have p: "p \<in> set live"
      and cap: "within_capacity n (pool_del o' p) (remove1 p live) ops"
      by simp_all
    have d: "distinct live" "p \<notin> set (pool_first o')"
      using Cons.prems(1) p by (auto simp: pool_inv_def)
    have "length (remove1 p live) = length live - 1" "0 < length live"
      using p by (auto simp: length_remove1)
    then have inv: "pool_inv n (pool_del o' p) (remove1 p live)"
      using Cons.prems(1) d p by (auto simp: pool_inv_def pool_del_def)
    show ?thesis
      using Cons.IH [OF inv cap] Del by simp
  qed
qed

text \<open>
  Claim C9.  Take a pool initialised with capacity \<open>n\<close> (for an item size whose
  rounding does not wrap) and any sequence of calls that releases only live entries and
  never holds more than \<open>n\<close> of them.  Then no call of \<^verbatim>\<open>pool_new\<close> fails, and at
  the end the live entries are pairwise different entries, different from every free
  one.  On any pool, \<^verbatim>\<open>pool_new\<close> panics exactly when the free list is empty.
\<close>

theorem pool_no_aliasing:
  assumes "unat isz + 3 < 2 ^ 32"
    and "within_capacity (unat n) (pool_init isz n) [] ops"
  shows "(\<exists>o'' live. pool_run (pool_init isz n) [] ops = Inr (o'', live) \<and>
            distinct live \<and> set live \<inter> set (pool_first o'') = {} \<and>
            length live + length (pool_first o'') = unat n) \<and>
         (\<forall>o'. (\<exists>err. pool_new o' = Inl err) = (pool_first o' = [])) \<and>
         (\<forall>o' err. pool_new o' = Inl err \<longrightarrow> err = Pool_is_empty)"
proof -
  from pool_run_inv [OF pool_init_inv [OF assms(1)] assms(2)]
  obtain o'' live where
    "pool_run (pool_init isz n) [] ops = Inr (o'', live)" "pool_inv (unat n) o'' live"
    by blast
  then have "\<exists>o'' live. pool_run (pool_init isz n) [] ops = Inr (o'', live) \<and>
            distinct live \<and> set live \<inter> set (pool_first o'') = {} \<and>
            length live + length (pool_first o'') = unat n"
    by (auto simp: pool_inv_def)
  moreover have "(\<exists>err. pool_new o' = Inl err) = (pool_first o' = [])" for o'
    by (cases "pool_first o'") (simp_all add: pool_new_def)
  moreover have "pool_new o' = Inl err \<Longrightarrow> err = Pool_is_empty" for o' err
    by (cases "pool_first o'") (simp_all add: pool_new_def)
  ultimately show ?thesis
    by blast
qed

theorem pool_no_aliasing_witness:
  "unat (40 :: u32) + 3 < 2 ^ 32 \<and>
   within_capacity (unat (4 :: u32)) (pool_init 40 4) [] [New, New, Del 120, New, New, New] \<and>
   pool_run (pool_init 40 4) [] [New, New, Del 120, New, New, New] =
     Inr (\<lparr>pool_first = [], itemnum = 8, itemsize = 40\<rparr>, [0, 40, 120, 80]) \<and>
   pool_new \<lparr>pool_first = [], itemnum = 8, itemsize = 40\<rparr> = Inl Pool_is_empty"
proof -
  have sz: "unat (40 :: u32) + 3 < 2 ^ 32"
    by simp
  have cap: "within_capacity (unat (4 :: u32)) (pool_init 40 4) []
               [New, New, Del 120, New, New, New]"
    by code_simp
  have run: "pool_run (pool_init 40 4) [] [New, New, Del 120, New, New, New] =
     Inr (\<lparr>pool_first = [], itemnum = 8, itemsize = 40\<rparr>, [0, 40, 120, 80])"
    by code_simp
  show ?thesis
    using pool_no_aliasing [OF sz cap] sz cap run
    by (simp add: pool_new_def)
qed

section \<open>Properties of the timeouts\<close>

text \<open>
  The signed difference of two times: when \<open>b\<close> is at most \<open>2^31\<close> units after
  \<open>a\<close>, counted without wrap-around, \<^verbatim>\<open>(int)(a - b)\<close> is minus that distance.
\<close>

lemma sint_diff_before:
  fixes a b :: u32
  assumes "unat a \<le> unat b" "unat b - unat a \<le> 2 ^ 31"
  shows "sint (a - b) = - int (unat b - unat a)"
proof -
  have eq: "uint b - uint a = int (unat b - unat a)"
    by (simp only: uint_nat of_nat_diff [OF assms(1)])
  have "int (unat b - unat a) \<le> int (2 ^ 31)"
    using assms(2) by (simp only: of_nat_le_iff)
  then have k: "uint b - uint a \<le> 2 ^ 31"
    by (simp only: eq of_nat_power of_nat_numeral)
  have le: "0 \<le> uint b - uint a"
    by (simp only: eq of_nat_0_le_iff)
  have pos: "(0::int) < 2 ^ 31"
    by (rule zero_less_power) simp
  have "sint (a - b) = sint (word_of_int (uint a - uint b) :: u32)"
    by (simp only: word_sub_wi)
  also have "\<dots> = signed_take_bit (LENGTH(32) - 1) (uint a - uint b)"
    by (rule sint_sbintrunc')
  also have "\<dots> = signed_take_bit 31 (uint a - uint b)"
    by simp
  also have "\<dots> = uint a - uint b"
  proof (rule signed_take_bit_int_eq_self)
    show "- (2 ^ 31) \<le> uint a - uint b"
      using k by linarith
    show "uint a - uint b < 2 ^ 31"
      using le pos by linarith
  qed
  also have "\<dots> = - int (unat b - unat a)"
    using eq by linarith
  finally show ?thesis .
qed

lemma not_after:
  fixes t d e :: u32
  assumes "unat d \<le> unat e" "unat e < 2 ^ 31"
  shows "\<not> 0 < sint ((t + d) - (t + e))"
proof -
  have "unat e - unat d \<le> 2 ^ 31"
    using assms(2) by linarith
  then have "sint (d - e) = - int (unat e - unat d)"
    using assms(1) by (simp only: sint_diff_before)
  moreover have "(t + d) - (t + e) = d - e"
    by simp
  ultimately show ?thesis
    by simp
qed

lemma sint_diff_after:
  fixes a b :: u32
  assumes "unat b < unat a" "unat a - unat b < 2 ^ 31"
  shows "sint (a - b) = int (unat a - unat b)"
proof -
  have le: "unat b \<le> unat a"
    using assms(1) by linarith
  have eq: "uint a - uint b = int (unat a - unat b)"
    by (simp only: uint_nat of_nat_diff [OF le])
  have "int (unat a - unat b) < int (2 ^ 31)"
    using assms(2) by (simp only: of_nat_less_iff)
  then have k: "uint a - uint b < 2 ^ 31"
    by (simp only: eq of_nat_power of_nat_numeral)
  have ge: "0 \<le> uint a - uint b"
    by (simp only: eq of_nat_0_le_iff)
  have pos: "(0::int) < 2 ^ 31"
    by (rule zero_less_power) simp
  have "sint (a - b) = sint (word_of_int (uint a - uint b) :: u32)"
    by (simp only: word_sub_wi)
  also have "\<dots> = signed_take_bit (LENGTH(32) - 1) (uint a - uint b)"
    by (rule sint_sbintrunc')
  also have "\<dots> = signed_take_bit 31 (uint a - uint b)"
    by simp
  also have "\<dots> = uint a - uint b"
  proof (rule signed_take_bit_int_eq_self)
    show "- (2 ^ 31) \<le> uint a - uint b"
      using ge pos by linarith
    show "uint a - uint b < 2 ^ 31"
      by (rule k)
  qed
  finally show ?thesis
    using eq by linarith
qed

lemma is_after:
  fixes t d e :: u32
  assumes "unat e < unat d" "unat d < 2 ^ 31"
  shows "0 < sint ((t + d) - (t + e))"
proof -
  have "unat d - unat e < 2 ^ 31"
    using assms(2) by linarith
  then have e1: "sint (d - e) = int (unat d - unat e)"
    using assms(1) by (simp only: sint_diff_after)
  have e2: "(t + d) - (t + e) = d - e"
    by simp
  have e3: "0 < int (unat d - unat e)"
    using assms(1) by (simp only: of_nat_0_less_iff zero_less_diff)
  show ?thesis
    unfolding e2 e1 by (rule e3)
qed

text \<open>
  Two timeouts scheduled on an empty queue, in either order: the queue holds them in
  the order of their expiry.
\<close>

lemma timo_add_two:
  fixes d1 d2 :: u32
  assumes ne: "a1 \<noteq> a2" and empty: "timo_queue s = []"
    and d12: "unat d1 \<le> unat d2" and d2: "unat d2 < 2 ^ 31"
    and sb: "sb = timo_add (timo_add s a1 d1) a2 d2 \<or>
             unat d1 < unat d2 \<and> sb = timo_add (timo_add s a2 d2) a1 d1"
  shows "timo_queue sb = [a1, a2]"
    and "timos sb a1 = (timos s a1)\<lparr>val := timo_abstime s + d1, set_flag := 1\<rparr>"
    and "timos sb a2 = (timos s a2)\<lparr>val := timo_abstime s + d2, set_flag := 1\<rparr>"
    and "user sb = user s" and "timo_abstime sb = timo_abstime s"
proof -
  let ?t = "timo_abstime s"
  have c12: "\<not> 0 < sint ((?t + d1) - (?t + d2))"
    by (rule not_after [OF d12 d2])
  have c21: "0 < sint ((?t + d2) - (?t + d1))" if "unat d1 < unat d2"
    by (rule is_after [OF that d2])
  from sb have "timo_queue sb = [a1, a2] \<and>
      timos sb a1 = (timos s a1)\<lparr>val := ?t + d1, set_flag := 1\<rparr> \<and>
      timos sb a2 = (timos s a2)\<lparr>val := ?t + d2, set_flag := 1\<rparr> \<and>
      user sb = user s \<and> timo_abstime sb = ?t"
  proof
    assume "sb = timo_add (timo_add s a1 d1) a2 d2"
    then show ?thesis
      using ne empty c12 by (simp add: timo_add_def Let_def)
  next
    assume "unat d1 < unat d2 \<and> sb = timo_add (timo_add s a2 d2) a1 d1"
    then show ?thesis
      using ne empty c21 by (simp add: timo_add_def Let_def)
  qed
  then show "timo_queue sb = [a1, a2]"
    and "timos sb a1 = (timos s a1)\<lparr>val := timo_abstime s + d1, set_flag := 1\<rparr>"
    and "timos sb a2 = (timos s a2)\<lparr>val := timo_abstime s + d2, set_flag := 1\<rparr>"
    and "user sb = user s" and "timo_abstime sb = timo_abstime s"
    by simp_all
qed

text \<open>
  Claim C7.  The time is a 32-bit counter and two times are compared by the sign of
  their difference.  Whatever the time \<open>t\<close> is (so also just before the counter
  wraps), let the queue be empty and let \<open>T1\<close> be scheduled with a delta \<open>d1\<close> and
  \<open>T2\<close> with a delta \<open>d2 \<ge> d1\<close>, both less than \<open>2^31\<close>: \<open>T1\<close> first, or \<open>T2\<close>
  first when \<open>d1 < d2\<close>.  Then \<open>T1\<close> is queued before \<open>T2\<close>, and one
  \<^verbatim>\<open>timo_update(D)\<close> with \<open>D < 2^31\<close> calls the callbacks of exactly the timeouts
  whose delta is at most \<open>D\<close>, \<open>T1\<close> before \<open>T2\<close>: these leave the queue with
  \<^verbatim>\<open>set = 0\<close>, the others stay queued with \<^verbatim>\<open>set = 1\<close>.  So with \<open>D < d1\<close> no
  callback is called, with \<open>d1 \<le> D < d2\<close> only that of \<open>T1\<close>, and with \<open>d2 \<le> D\<close>
  that of \<open>T1\<close> and then that of \<open>T2\<close>.  The callbacks here record their calls.
\<close>

theorem timo_update_across_wrap:
  fixes d1 d2 D :: u32
  assumes ne: "a1 \<noteq> a2" and empty: "timo_queue s = []"
    and d12: "unat d1 \<le> unat d2" and d2: "unat d2 < 2 ^ 31" and D: "unat D < 2 ^ 31"
    and sb: "sb = timo_add (timo_add s a1 d1) a2 d2 \<or>
             unat d1 < unat d2 \<and> sb = timo_add (timo_add s a2 d2) a1 d1"
  shows "timo_queue sb = [a1, a2] \<and>
         (\<exists>s'. timo_update record_call sb D = Some s' \<and>
            user s' = user s @ (if unat d1 \<le> unat D then [arg (timos s a1)] else []) @
                               (if unat d2 \<le> unat D then [arg (timos s a2)] else []) \<and>
            timo_queue s' = (if unat d1 \<le> unat D then [] else [a1]) @
                            (if unat d2 \<le> unat D then [] else [a2]) \<and>
            set_flag (timos s' a1) = (if unat d1 \<le> unat D then 0 else 1) \<and>
            set_flag (timos s' a2) = (if unat d2 \<le> unat D then 0 else 1) \<and>
            timo_abstime s' = timo_abstime s + D)"
proof -
  let ?t = "timo_abstime s"
  note two = timo_add_two [OF ne empty d12 d2 sb]
  have d1: "unat d1 < 2 ^ 31"
    using d12 d2 by linarith
  define s0 where "s0 = sb\<lparr>timo_abstime := ?t + D\<rparr>"
  have run0: "timo_update record_call sb D = timo_update_loop record_call s0"
    by (simp add: timo_update_def s0_def two)
  have s0_q: "timo_queue s0 = [a1, a2]" and s0_v1: "val (timos s0 a1) = ?t + d1"
    and s0_t: "timo_abstime s0 = ?t + D"
    by (simp_all add: s0_def two)
  show ?thesis
  proof (cases "unat d1 \<le> unat D")
    case False
    then have c1: "0 < sint ((?t + d1) - (?t + D))"
      using d1 by (intro is_after) simp_all
    have n2: "\<not> unat d2 \<le> unat D"
      using False d12 by linarith
    have "timo_update_loop record_call s0 = Some s0"
      using c1 by (subst timo_update_loop.simps) (simp add: s0_q s0_v1 s0_t)
    then have run: "timo_update record_call sb D = Some s0"
      by (simp add: run0)
    have "user s0 = user s" "timo_queue s0 = [a1, a2]" "set_flag (timos s0 a1) = 1"
      "set_flag (timos s0 a2) = 1" "timo_abstime s0 = ?t + D"
      by (simp_all add: s0_def two)
    then show ?thesis
      using run False n2 two(1) by simp
  next
    case True
    have c1: "\<not> 0 < sint ((?t + d1) - (?t + D))"
      by (rule not_after [OF True D])
    define s1 where "s1 = record_call (cb (timos s0 a1)) (arg (timos s0 a1))
       (s0\<lparr>timo_queue := [a2], timos := (timos s0)(a1 := (timos s0 a1)\<lparr>set_flag := 0\<rparr>)\<rparr>)"
    have step1: "timo_update_loop record_call s0 = timo_update_loop record_call s1"
      using c1 by (subst timo_update_loop.simps) (simp add: s0_q s0_v1 s0_t s1_def)
    have s1_q: "timo_queue s1 = [a2]" and s1_v: "val (timos s1 a2) = ?t + d2"
      and s1_t: "timo_abstime s1 = ?t + D"
      and s1_u: "user s1 = user s @ [arg (timos s a1)]"
      and s1_f1: "set_flag (timos s1 a1) = 0" and s1_f2: "set_flag (timos s1 a2) = 1"
      and s1_g: "arg (timos s1 a2) = arg (timos s a2)"
      using ne by (simp_all add: s1_def s0_def record_call_def two)
    show ?thesis
    proof (cases "unat d2 \<le> unat D")
      case False
      then have c2: "0 < sint ((?t + d2) - (?t + D))"
        using d2 by (intro is_after) simp_all
      have "timo_update_loop record_call s1 = Some s1"
        using c2 by (subst timo_update_loop.simps) (simp add: s1_q s1_v s1_t)
      then have run: "timo_update record_call sb D = Some s1"
        by (simp add: run0 step1)
      show ?thesis
        using run True False two(1) s1_q s1_t s1_u s1_f1 s1_f2 by simp
    next
      case d2D: True
      have c2: "\<not> 0 < sint ((?t + d2) - (?t + D))"
        by (rule not_after [OF d2D D])
      define s2 where "s2 = record_call (cb (timos s1 a2)) (arg (timos s1 a2))
         (s1\<lparr>timo_queue := [], timos := (timos s1)(a2 := (timos s1 a2)\<lparr>set_flag := 0\<rparr>)\<rparr>)"
      have step2: "timo_update_loop record_call s1 = timo_update_loop record_call s2"
        using c2 by (subst timo_update_loop.simps) (simp add: s1_q s1_v s1_t s2_def)
      have s2_q: "timo_queue s2 = []"
        by (simp add: s2_def record_call_def)
      have step3: "timo_update_loop record_call s2 = Some s2"
        by (subst timo_update_loop.simps) (simp add: s2_q)
      have run: "timo_update record_call sb D = Some s2"
        by (simp add: run0 step1 step2 step3)
      have "user s2 = user s @ [arg (timos s a1), arg (timos s a2)]"
        "set_flag (timos s2 a1) = 0" "set_flag (timos s2 a2) = 0"
        "timo_abstime s2 = ?t + D"
        using ne by (simp_all add: s2_def record_call_def s1_u s1_g s1_f1 s1_t)
      then show ?thesis
        using run True d2D two(1) s2_q by simp
    qed
  qed
qed

theorem timo_update_across_wrap_witness:
  "timo_abstime (timo_set (timo_set ((timo_init ([] :: nat list))\<lparr>timo_abstime := 2 ^ 32 - 1000\<rparr>)
                    1 0 1) 2 0 2) = 0xFFFFFC18 \<and>
   timo_queue (two_timeouts (2 ^ 32 - 1000)) = [1, 2] \<and>
   map_option (\<lambda>s. (user s, timo_queue s, set_flag (timos s 1), set_flag (timos s 2),
                     timo_abstime s))
     (timo_update record_call (two_timeouts (2 ^ 32 - 1000)) 2000) =
     Some ([1, 2], [], 0, 0, 1000) \<and>
   map_option (\<lambda>s. (user s, timo_queue s, set_flag (timos s 1), set_flag (timos s 2),
                     timo_abstime s))
     (timo_update record_call (two_timeouts (2 ^ 32 - 1000)) 1000) =
     Some ([1], [2], 0, 1, 0) \<and>
   map_option (\<lambda>s. (user s, timo_queue s, set_flag (timos s 1), set_flag (timos s 2),
                     timo_abstime s))
     (timo_update record_call (two_timeouts (2 ^ 32 - 1000)) 100) =
     Some ([], [1, 2], 1, 1, 0xFFFFFC7C)"
proof -
  let ?s = "timo_set (timo_set ((timo_init ([] :: nat list))\<lparr>timo_abstime := 2 ^ 32 - 1000\<rparr>)
              1 0 1) 2 0 2"
  have h: "(1::nat) \<noteq> 2" "timo_queue ?s = []" "unat (500 :: u32) \<le> unat (1500 :: u32)"
    "unat (1500 :: u32) < 2 ^ 31"
    by (simp_all add: timo_set_def timo_init_def)
  have D: "unat (2000 :: u32) < 2 ^ 31" "unat (1000 :: u32) < 2 ^ 31" "unat (100 :: u32) < 2 ^ 31"
    by simp_all
  have a: "arg (timos ?s 1) = 1" "arg (timos ?s 2) = 2" "user ?s = []"
    "timo_abstime ?s = 0xFFFFFC18"
    by (simp_all add: timo_set_def timo_init_def)
  have sb: "two_timeouts (2 ^ 32 - 1000) = timo_add (timo_add ?s 1 500) 2 1500 \<or>
            unat (500 :: u32) < unat (1500 :: u32) \<and>
            two_timeouts (2 ^ 32 - 1000) = timo_add (timo_add ?s 2 1500) 1 500"
    by (simp add: two_timeouts_def)
  note th = timo_update_across_wrap [OF h(1,2,3,4) _ sb, unfolded a]
  from th [OF D(1), THEN conjunct2] obtain sa where
    run: "timo_update record_call (two_timeouts (2 ^ 32 - 1000)) 2000 = Some sa" and
    obs: "user sa = [1, 2]" "timo_queue sa = []" "set_flag (timos sa 1) = 0"
      "set_flag (timos sa 2) = 0" "timo_abstime sa = 0xFFFFFC18 + 2000"
    by (elim exE conjE) simp
  from th [OF D(2), THEN conjunct2] obtain sb where
    run2: "timo_update record_call (two_timeouts (2 ^ 32 - 1000)) 1000 = Some sb" and
    obs2: "user sb = [1]" "timo_queue sb = [2]" "set_flag (timos sb 1) = 0"
      "set_flag (timos sb 2) = 1" "timo_abstime sb = 0xFFFFFC18 + 1000"
    by (elim exE conjE) simp
  from th [OF D(3), THEN conjunct2] obtain sc where
    run3: "timo_update record_call (two_timeouts (2 ^ 32 - 1000)) 100 = Some sc" and
    obs3: "user sc = []" "timo_queue sc = [1, 2]" "set_flag (timos sc 1) = 1"
      "set_flag (timos sc 2) = 1" "timo_abstime sc = 0xFFFFFC18 + 100"
    by (elim exE conjE) simp
  have q: "timo_queue (two_timeouts (2 ^ 32 - 1000)) = [1, 2]"
    by (rule th [OF D(1), THEN conjunct1])
  show ?thesis
    unfolding run run2 run3 q a using obs obs2 obs3 by simp
qed

section \<open>Properties of the tracks\<close>

lemma seg_frame:
  "\<forall>a\<in>set as. nxt (h' a) = nxt (h a) \<and> prev (h' a) = prev (h a) \<Longrightarrow>
     seg h' r p as q = seg h r p as q"
  by (induction as arbitrary: r p) auto

lemma seg_append:
  "seg h r p (xs @ ys) q =
     (\<exists>m. seg h r p xs m \<and> seg h (if xs = [] then r else Ref_next (last xs)) m ys q)"
  by (induction xs arbitrary: r p) auto

lemma seg_retarget:
  "seg h r p xs q \<Longrightarrow> xs \<noteq> [] \<Longrightarrow> distinct xs \<Longrightarrow>
   \<forall>a\<in>set (butlast xs). nxt (h' a) = nxt (h a) \<Longrightarrow>
   \<forall>a\<in>set xs. prev (h' a) = prev (h a) \<Longrightarrow> nxt (h' (last xs)) = q' \<Longrightarrow>
     seg h' r p xs q'"
proof (induction xs arbitrary: r p)
  case Nil
  then show ?case by simp
next
  case (Cons a xs)
  show ?case
  proof (cases "xs = []")
    case True
    with Cons.prems show ?thesis by simp
  next
    case False
    with Cons.prems have "seg h' (Ref_next a) (nxt (h a)) xs q'"
      by (intro Cons.IH) auto
    with Cons.prems False show ?thesis by simp
  qed
qed

lemma track_numtic_loop_seg:
  "seg h r p as None \<Longrightarrow> track_numtic_loop h p n = Some (n + sum_deltas h as)"
proof (induction as arbitrary: r p n)
  case Nil
  then show ?case
    by (subst track_numtic_loop.simps) (simp add: sum_deltas_def)
next
  case (Cons a as)
  then have "track_numtic_loop h (nxt (h a)) (n + delta (h a)) =
               Some (n + delta (h a) + sum_deltas h as)"
    by (intro Cons.IH [of "Ref_next a"]) simp
  with Cons.prems show ?case
    by (subst track_numtic_loop.simps) (simp add: sum_deltas_def add.assoc)
qed

lemma track_numtic_wf: "track_wf o' as \<Longrightarrow> track_numtic o' = Some (sum_deltas (seqevs o') as)"
  using track_numtic_loop_seg [of "seqevs o'" Ref_first "track_first o'" as 0]
  by (simp add: track_wf_def track_numtic_def)

lemma sum_deltas_frame:
  "\<forall>a\<in>set as. delta (h' a) = delta (h a) \<Longrightarrow> sum_deltas h' as = sum_deltas h as"
  by (induction as) (simp_all add: sum_deltas_def)

lemma sum_deltas_append: "sum_deltas h (xs @ ys) = sum_deltas h xs + sum_deltas h ys"
  by (simp add: sum_deltas_def)

lemma sum_deltas_Cons: "sum_deltas h (a # as) = delta (h a) + sum_deltas h as"
  by (simp add: sum_deltas_def)

lemma insert_before_split:
  "pos \<notin> set xs \<Longrightarrow> insert_before se pos (xs @ pos # ys) = xs @ se # pos # ys"
  by (induction xs) auto

lemma remove1_split: "pos \<notin> set xs \<Longrightarrow> remove1 pos (xs @ pos # ys) = xs @ ys"
  by (induction xs) auto

lemma following_split:
  "pos \<notin> set xs \<Longrightarrow> following pos (xs @ pos # n # ys) = Some n"
proof (induction xs)
  case Nil
  then show ?case by simp
next
  case (Cons a xs)
  then show ?case by (cases xs) auto
qed

subsection \<open>The store after \<^verbatim>\<open>seqev_ins\<close> and \<^verbatim>\<open>seqev_rm\<close>\<close>

lemma seqev_ins_store:
  assumes "se \<noteq> pos" and "prev (seqevs m pos) \<noteq> Ref_next se"
    and "prev (seqevs m pos) \<noteq> Ref_next pos"
  defines "m' \<equiv> seqev_ins m pos se"
  shows "seqevs m' se = (seqevs m se)\<lparr>delta := delta (seqevs m pos), nxt := Some pos,
                                      prev := prev (seqevs m pos)\<rparr>"
    and "seqevs m' pos = (seqevs m pos)\<lparr>delta := 0, prev := Ref_next se\<rparr>"
    and "\<And>a. a \<noteq> se \<Longrightarrow> a \<noteq> pos \<Longrightarrow>
           seqevs m' a = (if prev (seqevs m pos) = Ref_next a
                          then (seqevs m a)\<lparr>nxt := Some se\<rparr> else seqevs m a)"
    and "track_first m' = (if prev (seqevs m pos) = Ref_first then Some se else track_first m)"
    and "eot m' = eot m"
  using assms(1-3) unfolding m'_def
  by (auto simp: seqev_ins_def Let_def seqev_upd_def store_ref_def split: ref.splits)

lemma seqev_rm_store:
  assumes "nxt (seqevs m pos) = Some n" and "n \<noteq> pos"
    and "prev (seqevs m pos) \<noteq> Ref_next n" and "prev (seqevs m pos) \<noteq> Ref_next pos"
  shows "\<exists>m'. seqev_rm m pos = Inr m' \<and>
           seqevs m' n = (seqevs m n)\<lparr>delta := delta (seqevs m n) + delta (seqevs m pos),
                                      prev := prev (seqevs m pos)\<rparr> \<and>
           delta (seqevs m' pos) = 0 \<and>
           (\<forall>a. a \<noteq> n \<and> a \<noteq> pos \<longrightarrow>
              seqevs m' a = (if prev (seqevs m pos) = Ref_next a
                             then (seqevs m a)\<lparr>nxt := Some n\<rparr> else seqevs m a)) \<and>
           track_first m' = (if prev (seqevs m pos) = Ref_first then Some n else track_first m) \<and>
           eot m' = eot m"
  using assms
  by (auto simp: seqev_rm_def Let_def seqev_upd_def store_ref_def split: ref.splits)

subsection \<open>The track invariants are kept\<close>

lemma seqev_ins_wf:
  assumes wf: "track_wf m (xs @ pos # ys)" and se: "se \<notin> set (xs @ pos # ys)"
  shows "track_wf (seqev_ins m pos se) (xs @ se # pos # ys) \<and>
         delta (seqevs (seqev_ins m pos se) se) = delta (seqevs m pos) \<and>
         delta (seqevs (seqev_ins m pos se) pos) = 0 \<and>
         (\<forall>a. a \<noteq> se \<and> a \<noteq> pos \<longrightarrow>
            delta (seqevs (seqev_ins m pos se) a) = delta (seqevs m a))"
proof -
  let ?h = "seqevs m"
  let ?m' = "seqev_ins m pos se"
  let ?h' = "seqevs ?m'"
  let ?r = "if xs = [] then Ref_first else Ref_next (last xs)"
  from wf have dist: "distinct (xs @ pos # ys)"
    and sg: "seg ?h Ref_first (track_first m) (xs @ pos # ys) None"
    and last: "last (xs @ pos # ys) = eot m"
    and null: "cmd (ev_seqev (?h (eot m))) = EV_NULL"
    by (simp_all add: track_wf_def)
  from sg have front: "seg ?h Ref_first (track_first m) xs (Some pos)"
    and pr: "prev (?h pos) = ?r"
    and tl: "seg ?h (Ref_next pos) (nxt (?h pos)) ys None"
    by (auto simp: seg_append)
  have ne: "se \<noteq> pos" "se \<notin> set xs" "se \<notin> set ys" "pos \<notin> set xs" "pos \<notin> set ys"
    using se dist by auto
  have r1: "prev (?h pos) \<noteq> Ref_next se"
    using ne pr by (cases "xs = []") auto
  have r2: "prev (?h pos) \<noteq> Ref_next pos"
    using ne pr by (cases "xs = []") auto
  note st = seqev_ins_store [OF ne(1) r1 r2]
  have other: "?h' a = (if ?r = Ref_next a then (?h a)\<lparr>nxt := Some se\<rparr> else ?h a)"
    if "a \<noteq> se" "a \<noteq> pos" for a
    using st(3) [OF that] pr by simp
  have tl': "seg ?h' (Ref_next pos) (nxt (?h pos)) ys None"
  proof -
    have fr: "\<forall>a\<in>set ys. nxt (?h' a) = nxt (?h a) \<and> prev (?h' a) = prev (?h a)"
    proof
      fix a assume a: "a \<in> set ys"
      then have "a \<noteq> se" "a \<noteq> pos"
        using ne by auto
      moreover have "?r \<noteq> Ref_next a"
      proof (cases "xs = []")
        case True
        then show ?thesis by simp
      next
        case False
        then have "last xs \<in> set xs"
          by simp
        with a dist have "last xs \<noteq> a"
          by auto
        with False show ?thesis by simp
      qed
      ultimately show "nxt (?h' a) = nxt (?h a) \<and> prev (?h' a) = prev (?h a)"
        using other [of a] by simp
    qed
    show ?thesis
      using tl seg_frame [OF fr] by simp
  qed
  have mid: "seg ?h' ?r (Some se) (se # pos # ys) None"
    using tl' pr by (simp add: st(1,2))
  have whole: "seg ?h' Ref_first (track_first ?m') (xs @ se # pos # ys) None"
  proof (cases "xs = []")
    case True
    then show ?thesis
      using mid pr by (simp add: st(4))
  next
    case False
    have "seg ?h' Ref_first (track_first m) xs (Some se)"
    proof (rule seg_retarget [OF front False])
      show "distinct xs"
        using dist by simp
      show "\<forall>a\<in>set (butlast xs). nxt (?h' a) = nxt (?h a)"
      proof
        fix a assume a: "a \<in> set (butlast xs)"
        then have "a \<in> set xs"
          by (rule in_set_butlastD)
        moreover have "a \<noteq> last xs"
          using a dist False by (metis append_butlast_last_id distinct_append
              disjoint_iff list.set_intros(1) distinct.simps(2))
        moreover have "a \<noteq> se" "a \<noteq> pos"
          using \<open>a \<in> set xs\<close> ne by auto
        ultimately show "nxt (?h' a) = nxt (?h a)"
          using other [of a] False by auto
      qed
      show "\<forall>a\<in>set xs. prev (?h' a) = prev (?h a)"
      proof
        fix a assume "a \<in> set xs"
        then have "a \<noteq> se" "a \<noteq> pos"
          using ne by auto
        then show "prev (?h' a) = prev (?h a)"
          using other [of a] by simp
      qed
      have "last xs \<in> set xs"
        using False by simp
      then have "last xs \<noteq> se" "last xs \<noteq> pos"
        using ne by auto
      then show "nxt (?h' (last xs)) = Some se"
        using other [of "last xs"] False by simp
    qed
    moreover have "track_first ?m' = track_first m"
      using pr False by (simp add: st(4))
    ultimately show ?thesis
      using mid False by (auto simp: seg_append)
  qed
  have "distinct (xs @ se # pos # ys)"
    using dist se by auto
  moreover have "last (xs @ se # pos # ys) = eot ?m'"
    using last by (simp add: st(5))
  moreover have "cmd (ev_seqev (?h' (eot ?m'))) = EV_NULL"
  proof (cases "eot m = pos")
    case True
    then show ?thesis
      using null by (simp add: st(2,5))
  next
    case False
    moreover have "eot m \<noteq> se"
      using last se by (metis last_in_set append_is_Nil_conv list.distinct(1))
    ultimately show ?thesis
      using null other [of "eot m"] by (simp add: st(5))
  qed
  ultimately have "track_wf ?m' (xs @ se # pos # ys)"
    using whole by (simp add: track_wf_def)
  moreover have "\<forall>a. a \<noteq> se \<and> a \<noteq> pos \<longrightarrow> delta (?h' a) = delta (?h a)"
    using other by simp
  ultimately show ?thesis
    by (simp add: st(1,2))
qed

lemma seqev_rm_wf:
  assumes wf: "track_wf m (xs @ pos # ys)" and noteot: "pos \<noteq> eot m"
  shows "\<exists>m' n ys'. ys = n # ys' \<and> seqev_rm m pos = Inr m' \<and> track_wf m' (xs @ ys) \<and>
           delta (seqevs m' n) = delta (seqevs m n) + delta (seqevs m pos) \<and>
           (\<forall>a. a \<noteq> n \<and> a \<noteq> pos \<longrightarrow> delta (seqevs m' a) = delta (seqevs m a))"
proof -
  let ?h = "seqevs m"
  let ?r = "if xs = [] then Ref_first else Ref_next (last xs)"
  from wf have dist: "distinct (xs @ pos # ys)"
    and sg: "seg ?h Ref_first (track_first m) (xs @ pos # ys) None"
    and last: "last (xs @ pos # ys) = eot m"
    and null: "cmd (ev_seqev (?h (eot m))) = EV_NULL"
    by (simp_all add: track_wf_def)
  from last noteot obtain n ys' where ys: "ys = n # ys'"
    by (cases ys) auto
  from sg have front: "seg ?h Ref_first (track_first m) xs (Some pos)"
    and pr: "prev (?h pos) = ?r"
    and nx: "nxt (?h pos) = Some n"
    and prn: "prev (?h n) = Ref_next pos"
    and tl: "seg ?h (Ref_next n) (nxt (?h n)) ys' None"
    by (auto simp: seg_append ys)
  have ne: "n \<noteq> pos" "n \<notin> set xs" "n \<notin> set ys'" "pos \<notin> set xs" "pos \<notin> set ys'"
    using dist ys by auto
  have r1: "prev (?h pos) \<noteq> Ref_next n"
    using ne pr by (cases "xs = []") auto
  have r2: "prev (?h pos) \<noteq> Ref_next pos"
    using ne pr by (cases "xs = []") auto
  from seqev_rm_store [OF nx ne(1) r1 r2] obtain m' where
    rm: "seqev_rm m pos = Inr m'" and
    hn: "seqevs m' n = (?h n)\<lparr>delta := delta (?h n) + delta (?h pos), prev := ?r\<rparr>" and
    other': "\<forall>a. a \<noteq> n \<and> a \<noteq> pos \<longrightarrow>
              seqevs m' a = (if ?r = Ref_next a then (?h a)\<lparr>nxt := Some n\<rparr> else ?h a)" and
    fst: "track_first m' = (if ?r = Ref_first then Some n else track_first m)" and
    eot: "eot m' = eot m"
    unfolding pr by blast
  let ?h' = "seqevs m'"
  have other: "?h' a = (if ?r = Ref_next a then (?h a)\<lparr>nxt := Some n\<rparr> else ?h a)"
    if "a \<noteq> n" "a \<noteq> pos" for a
    using other' that by simp
  have tl': "seg ?h' (Ref_next n) (nxt (?h n)) ys' None"
  proof -
    have fr: "\<forall>a\<in>set ys'. nxt (?h' a) = nxt (?h a) \<and> prev (?h' a) = prev (?h a)"
    proof
      fix a assume a: "a \<in> set ys'"
      then have "a \<noteq> n" "a \<noteq> pos"
        using ne by auto
      moreover have "?r \<noteq> Ref_next a"
      proof (cases "xs = []")
        case True
        then show ?thesis by simp
      next
        case False
        then have "last xs \<in> set xs"
          by simp
        with a dist ys have "last xs \<noteq> a"
          by auto
        with False show ?thesis by simp
      qed
      ultimately show "nxt (?h' a) = nxt (?h a) \<and> prev (?h' a) = prev (?h a)"
        using other [of a] by simp
    qed
    show ?thesis
      using tl seg_frame [OF fr] by simp
  qed
  have mid: "seg ?h' ?r (Some n) (n # ys') None"
    using tl' by (simp add: hn)
  have whole: "seg ?h' Ref_first (track_first m') (xs @ n # ys') None"
  proof (cases "xs = []")
    case True
    then show ?thesis
      using mid by (simp add: fst)
  next
    case False
    have "seg ?h' Ref_first (track_first m) xs (Some n)"
    proof (rule seg_retarget [OF front False])
      show "distinct xs"
        using dist by simp
      show "\<forall>a\<in>set (butlast xs). nxt (?h' a) = nxt (?h a)"
      proof
        fix a assume a: "a \<in> set (butlast xs)"
        then have "a \<in> set xs"
          by (rule in_set_butlastD)
        moreover have "a \<noteq> last xs"
          using a dist False by (metis append_butlast_last_id distinct_append
              disjoint_iff list.set_intros(1) distinct.simps(2))
        moreover have "a \<noteq> n" "a \<noteq> pos"
          using \<open>a \<in> set xs\<close> ne by auto
        ultimately show "nxt (?h' a) = nxt (?h a)"
          using other [of a] False by auto
      qed
      show "\<forall>a\<in>set xs. prev (?h' a) = prev (?h a)"
      proof
        fix a assume "a \<in> set xs"
        then have "a \<noteq> n" "a \<noteq> pos"
          using ne by auto
        then show "prev (?h' a) = prev (?h a)"
          using other [of a] by simp
      qed
      have "last xs \<in> set xs"
        using False by simp
      then have "last xs \<noteq> n" "last xs \<noteq> pos"
        using ne by auto
      then show "nxt (?h' (last xs)) = Some n"
        using other [of "last xs"] False by simp
    qed
    moreover have "track_first m' = track_first m"
      using False by (simp add: fst)
    ultimately show ?thesis
      using mid False by (auto simp: seg_append)
  qed
  have "distinct (xs @ n # ys')"
    using dist ys by auto
  moreover have "last (xs @ n # ys') = eot m'"
    using last ys by (simp add: eot)
  moreover have "cmd (ev_seqev (?h' (eot m'))) = EV_NULL"
  proof (cases "eot m = n")
    case True
    then show ?thesis
      using null by (simp add: hn eot)
  next
    case False
    then show ?thesis
      using null noteot other [of "eot m"] by (simp add: eot)
  qed
  ultimately have "track_wf m' (xs @ ys)"
    using whole by (simp add: track_wf_def ys)
  moreover have "\<forall>a. a \<noteq> n \<and> a \<noteq> pos \<longrightarrow> delta (?h' a) = delta (?h a)"
    using other by simp
  ultimately show ?thesis
    using ys rm by (simp add: hn)
qed

text \<open>
  Claim C8.  Take a track that satisfies the invariants, with the events \<open>as\<close>
  reached from \<^verbatim>\<open>first\<close>, and a position \<open>pos\<close> among them.

  Inserting an event \<open>se\<close> that is not in the track before \<open>pos\<close> gives \<open>se\<close> the
  delta of \<open>pos\<close> and zeroes the delta of \<open>pos\<close>.  Removing \<open>pos\<close>, when it is not
  the sentinel, adds its delta to the delta of the event that follows it.  After both
  operations the invariants hold again, for the list with \<open>se\<close> inserted before
  \<open>pos\<close> and for the list without \<open>pos\<close>: the sentinel is still the last event
  reached from \<^verbatim>\<open>first\<close>; and \<^verbatim>\<open>track_numtic\<close>, which returns the sum of the
  deltas, returns the same number as before.
\<close>

theorem seqev_ins_rm_keep_track:
  assumes wf: "track_wf m as" and pos: "pos \<in> set as"
  shows "track_numtic m = Some (sum_deltas (seqevs m) as) \<and>
         (se \<notin> set as \<longrightarrow>
            track_wf (seqev_ins m pos se) (insert_before se pos as) \<and>
            last (insert_before se pos as) = eot m \<and> eot (seqev_ins m pos se) = eot m \<and>
            delta (seqevs (seqev_ins m pos se) se) = delta (seqevs m pos) \<and>
            delta (seqevs (seqev_ins m pos se) pos) = 0 \<and>
            track_numtic (seqev_ins m pos se) = track_numtic m) \<and>
         (pos \<noteq> eot m \<longrightarrow>
            (\<exists>m' n. seqev_rm m pos = Inr m' \<and> following pos as = Some n \<and>
               track_wf m' (remove1 pos as) \<and>
               last (remove1 pos as) = eot m \<and> eot m' = eot m \<and>
               delta (seqevs m' n) = delta (seqevs m n) + delta (seqevs m pos) \<and>
               track_numtic m' = track_numtic m))"
proof -
  from pos obtain xs ys where as: "as = xs @ pos # ys" and nin: "pos \<notin> set xs"
    by (auto dest: split_list_first)
  have wf': "track_wf m (xs @ pos # ys)"
    using wf by (simp add: as)
  have dist: "distinct (xs @ pos # ys)" and lst: "last (xs @ pos # ys) = eot m"
    using wf' by (simp_all add: track_wf_def)
  have num: "track_numtic m = Some (sum_deltas (seqevs m) as)"
    by (rule track_numtic_wf [OF wf])
  have total: "sum_deltas (seqevs m) as =
                 sum_deltas (seqevs m) xs + delta (seqevs m pos) + sum_deltas (seqevs m) ys"
    by (simp add: as sum_deltas_append sum_deltas_Cons add.assoc)
  have ins: "track_wf (seqev_ins m pos se) (insert_before se pos as) \<and>
             last (insert_before se pos as) = eot m \<and> eot (seqev_ins m pos se) = eot m \<and>
             delta (seqevs (seqev_ins m pos se) se) = delta (seqevs m pos) \<and>
             delta (seqevs (seqev_ins m pos se) pos) = 0 \<and>
             track_numtic (seqev_ins m pos se) = track_numtic m"
    if se: "se \<notin> set as"
  proof -
    let ?m' = "seqev_ins m pos se"
    have se': "se \<notin> set (xs @ pos # ys)"
      using se by (simp add: as)
    note r = seqev_ins_wf [OF wf' se']
    then have wfi: "track_wf ?m' (xs @ se # pos # ys)"
      and d1: "delta (seqevs ?m' se) = delta (seqevs m pos)"
      and d2: "delta (seqevs ?m' pos) = 0"
      and d3: "\<forall>a. a \<noteq> se \<and> a \<noteq> pos \<longrightarrow> delta (seqevs ?m' a) = delta (seqevs m a)"
      by simp_all
    have fx: "sum_deltas (seqevs ?m') xs = sum_deltas (seqevs m) xs"
      using d3 se' dist by (intro sum_deltas_frame) auto
    have fy: "sum_deltas (seqevs ?m') ys = sum_deltas (seqevs m) ys"
      using d3 se' dist by (intro sum_deltas_frame) auto
    have "track_numtic ?m' = Some (sum_deltas (seqevs ?m') (xs @ se # pos # ys))"
      by (rule track_numtic_wf [OF wfi])
    also have "sum_deltas (seqevs ?m') (xs @ se # pos # ys) = sum_deltas (seqevs m) as"
      by (simp add: sum_deltas_append sum_deltas_Cons fx fy d1 d2 total add.assoc)
    finally have "track_numtic ?m' = track_numtic m"
      by (simp add: num)
    moreover have "eot ?m' = eot m"
      using wfi lst by (simp add: track_wf_def)
    ultimately show ?thesis
      using wfi d1 d2 lst nin by (simp add: as insert_before_split)
  qed
  have rm: "\<exists>m' n. seqev_rm m pos = Inr m' \<and> following pos as = Some n \<and>
               track_wf m' (remove1 pos as) \<and>
               last (remove1 pos as) = eot m \<and> eot m' = eot m \<and>
               delta (seqevs m' n) = delta (seqevs m n) + delta (seqevs m pos) \<and>
               track_numtic m' = track_numtic m"
    if noteot: "pos \<noteq> eot m"
  proof -
    from seqev_rm_wf [OF wf' noteot] obtain m' n ys' where
      ys: "ys = n # ys'" and run: "seqev_rm m pos = Inr m'" and
      wfr: "track_wf m' (xs @ ys)" and
      d1: "delta (seqevs m' n) = delta (seqevs m n) + delta (seqevs m pos)" and
      d3: "\<forall>a. a \<noteq> n \<and> a \<noteq> pos \<longrightarrow> delta (seqevs m' a) = delta (seqevs m a)"
      by blast
    have fx: "sum_deltas (seqevs m') xs = sum_deltas (seqevs m) xs"
      using d3 dist ys by (intro sum_deltas_frame) auto
    have fy: "sum_deltas (seqevs m') ys' = sum_deltas (seqevs m) ys'"
      using d3 dist ys by (intro sum_deltas_frame) auto
    have "track_numtic m' = Some (sum_deltas (seqevs m') (xs @ n # ys'))"
      using track_numtic_wf [OF wfr] by (simp add: ys)
    also have "sum_deltas (seqevs m') (xs @ n # ys') = sum_deltas (seqevs m) as"
      by (simp add: sum_deltas_append sum_deltas_Cons fx fy d1 total ys add.assoc)
    finally have "track_numtic m' = track_numtic m"
      by (simp add: num)
    moreover have "eot m' = eot m" "last (xs @ ys) = eot m"
      using wfr lst ys by (simp_all add: track_wf_def)
    ultimately show ?thesis
      using run wfr d1 nin by (simp add: as remove1_split following_split ys)
  qed
  show ?thesis
    using num ins rm by blast
qed

theorem seqev_ins_rm_keep_track_witness:
  "track_wf sample_track [1, 2, 3, 0] \<and> 2 \<in> set [1, 2, 3, 0 :: nat] \<and>
   4 \<notin> set [1, 2, 3, 0 :: nat] \<and> 2 \<noteq> eot sample_track \<and>
   track_numtic sample_track = Some 100 \<and>
   track_wf (seqev_ins sample_track 2 4) [1, 4, 2, 3, 0] \<and>
   delta (seqevs (seqev_ins sample_track 2 4) 4) = 20 \<and>
   delta (seqevs (seqev_ins sample_track 2 4) 2) = 0 \<and>
   track_numtic (seqev_ins sample_track 2 4) = Some 100 \<and>
   (\<exists>m'. seqev_rm sample_track 2 = Inr m' \<and> track_wf m' [1, 3, 0] \<and>
      delta (seqevs m' 3) = 50 \<and> track_numtic m' = Some 100)"
proof -
  have wf: "track_wf sample_track [1, 2, 3, 0]"
    by code_simp
  have pos: "2 \<in> set [1, 2, 3, 0 :: nat]"
    by simp
  have d: "delta (seqevs sample_track 2) = 20" "delta (seqevs sample_track 3) = 30"
    "eot sample_track = 0"
    by (simp_all add: sample_track_def)
  have s: "sum_deltas (seqevs sample_track) [Suc 0, 2, 3, 0] = 100"
    by (simp add: sum_deltas_def sample_track_def)
  show ?thesis
    using seqev_ins_rm_keep_track [OF wf pos, of 4] wf
    by (auto simp: d s)
qed

section \<open>Properties of the multiplexer\<close>

lemmas mux_phase_defs = MUX_STARTWAIT_def MUX_START_def MUX_FIRST_def MUX_NEXT_def MUX_STOP_def

lemmas mux_state_defs = mux_upd_def song_call_def mux_chgphase_def mux_flush_def
  mux_sendstart_def mux_sendstop_def send_mmc_def

lemma length_clk_devs [simp]: "length (clk_devs f c i ds) = length ds"
  by (induction ds arbitrary: i) simp_all

lemma nth_clk_devs:
  "k < length ds \<Longrightarrow>
     clk_devs f c i ds ! k = (if sendclk (ds ! k) \<noteq> 0 \<and> Some (i + k) \<noteq> c then f (ds ! k) else ds ! k)"
proof (induction ds arbitrary: i k)
  case Nil
  then show ?case by simp
next
  case (Cons d ds)
  show ?case
  proof (cases k)
    case 0
    then show ?thesis by simp
  next
    case (Suc j)
    with Cons.prems have "j < length ds" by simp
    from Cons.IH [OF this, of "Suc i"] Suc show ?thesis by simp
  qed
qed

subsection \<open>Stop\<close>

text \<open>
  Claim C2, as amended.  In a running phase (\<open>START\<close>, \<open>FIRST_TIC\<close> or
  \<open>NEXT_TIC\<close>) both a stop request (\<^verbatim>\<open>mux_stopreq\<close>) and a received MIDI stop
  (\<^verbatim>\<open>mux_stopcb\<close>) put the MIDI stop byte \<open>0xFC\<close> on every device with
  \<^verbatim>\<open>sendclk\<close> set that is not the clock source, and on no other device.  After the
  stop request the phase is \<open>STOP\<close>.  After a received MIDI stop the phase is the
  requested phase \<^verbatim>\<open>mux_reqphase\<close>: \<open>STOP\<close> when a stop was requested before, but
  \<open>STARTWAIT\<close> when the transport was started by a start request.
\<close>

theorem mux_stop_running:
  assumes run: "mux_phase (user s) = MUX_START \<or> mux_phase (user s) = MUX_FIRST \<or>
                mux_phase (user s) = MUX_NEXT"
  shows "mux_phase (user (mux_stopreq s)) = MUX_STOP \<and>
         mux_phase (user (mux_stopcb s)) = mux_reqphase (user s) \<and>
         length (mididev_list (user (mux_stopreq s))) = length (mididev_list (user s)) \<and>
         length (mididev_list (user (mux_stopcb s))) = length (mididev_list (user s)) \<and>
         (\<forall>i < length (mididev_list (user s)).
            out (mididev_list (user (mux_stopcb s)) ! i) =
              out (mididev_list (user s) ! i) @
              (if sendclk (mididev_list (user s) ! i) \<noteq> 0 \<and> Some i \<noteq> mididev_clksrc (user s)
               then [0xFC] else []) \<and>
            out (mididev_list (user (mux_stopreq s)) ! i) =
              out (mididev_list (user s) ! i) @
              (if sendclk (mididev_list (user s) ! i) \<noteq> 0 \<and> Some i \<noteq> mididev_clksrc (user s)
               then [0xFC] else []) @
              (if sendmmc (mididev_list (user s) ! i) \<noteq> 0 then mmc_stop else []))"
proof -
  have ph: "MUX_START \<le> mux_phase (user s)" "mux_phase (user s) \<le> MUX_NEXT"
    "mux_phase (user s) < MUX_STOP"
    using run by (auto simp: mux_phase_defs)
  have cb: "user (mux_stopcb s) =
              (user s)\<lparr>mididev_list := map mididev_flush
                  (clk_devs mididev_putstop (mididev_clksrc (user s)) 0 (mididev_list (user s))),
                mux_phase := mux_reqphase (user s),
                phases := phases (user s) @ [mux_reqphase (user s)],
                song_calls := song_calls (user s) @ [Song_stopcb]\<rparr>"
    using ph by (simp add: mux_stopcb_def Let_def mux_state_defs)
  have rq: "user (mux_stopreq s) =
              (user s)\<lparr>mididev_list :=
                  map (\<lambda>d. if sendmmc d \<noteq> 0 then mididev_sendraw d mmc_stop else d)
                    (map mididev_flush
                      (clk_devs mididev_putstop (mididev_clksrc (user s)) 0 (mididev_list (user s)))),
                mux_reqphase := MUX_STOP,
                mux_phase := MUX_STOP,
                phases := phases (user s) @ [MUX_STOP],
                song_calls := song_calls (user s) @ [Song_stopcb]\<rparr>"
    using ph by (simp add: mux_stopreq_def mux_stopcb_def Let_def mux_state_defs)
  show ?thesis
    by (simp add: cb rq nth_clk_devs mididev_flush_def mididev_putstop_def mididev_sendraw_def)
qed

theorem mux_stop_running_witness:
  "mux_phase (user playing) = MUX_NEXT \<and>
   mux_phase (user (mux_stopreq playing)) = MUX_STOP \<and>
   map out (mididev_list (user playing)) = [[0xF8, 0xFA, 0xFE, 0xF8, 0xF8]] \<and>
   map out (mididev_list (user (mux_stopreq playing))) = [[0xF8, 0xFA, 0xFE, 0xF8, 0xF8, 0xFC]] \<and>
   map out (mididev_list (user (mux_stopcb playing))) = [[0xF8, 0xFA, 0xFE, 0xF8, 0xF8, 0xFC]]"
proof -
  have ph: "mux_phase (user playing) = MUX_NEXT"
    by code_simp
  then have run: "mux_phase (user playing) = MUX_START \<or> mux_phase (user playing) = MUX_FIRST \<or>
                  mux_phase (user playing) = MUX_NEXT"
    by simp
  have o: "map out (mididev_list (user playing)) = [[0xF8, 0xFA, 0xFE, 0xF8, 0xF8]]"
    by code_simp
  have o1: "map out (mididev_list (user (mux_stopreq playing))) = [[0xF8, 0xFA, 0xFE, 0xF8, 0xF8, 0xFC]]"
    by code_simp
  have o2: "map out (mididev_list (user (mux_stopcb playing))) = [[0xF8, 0xFA, 0xFE, 0xF8, 0xF8, 0xFC]]"
    by code_simp
  show ?thesis
    using mux_stop_running [OF run] ph o o1 o2 by simp
qed

text \<open>
  The claim as stated fails for a received MIDI stop: while playing after a start
  request, in the phase \<open>NEXT_TIC\<close>, it leaves the transport in the phase
  \<open>STARTWAIT\<close>, not \<open>STOP\<close>.
\<close>

theorem mux_stopcb_counterexample:
  "mux_phase (user playing) = MUX_NEXT \<and>
   mux_reqphase (user playing) = MUX_STARTWAIT \<and>
   mux_phase (user (mux_stopcb playing)) = MUX_STARTWAIT \<and>
   mux_phase (user (mux_stopcb playing)) \<noteq> MUX_STOP"
  by code_simp

subsection \<open>Start request\<close>

text \<open>
  Claim C10, as amended.  \<^verbatim>\<open>mux_startreq\<close> panics when the phase is not \<open>STOP\<close>.
  Called in the phase \<open>STOP\<close> it returns, with \<^verbatim>\<open>mux_reqphase = STARTWAIT\<close> and
  \<^verbatim>\<open>mux_curpos = 0\<close>.  With an external clock or MTC source the phase on return is
  \<open>STARTWAIT\<close> and \<^verbatim>\<open>mux_nextpos\<close> is the tick length.  With neither, the start is
  generated at once: the phase passes through \<open>STARTWAIT\<close> and is \<open>START\<close> on
  return, and \<^verbatim>\<open>mux_nextpos = MUX_START_DELAY\<close>.
\<close>

theorem mux_startreq_cases:
  "(mux_phase (user s) \<noteq> MUX_STOP \<longrightarrow> mux_startreq gotocb ms s = Inl Bad_state_startreq) \<and>
   (mux_phase (user s) = MUX_STOP \<longrightarrow>
      (\<exists>s'. mux_startreq gotocb ms s = Inr s' \<and>
         mux_reqphase (user s') = MUX_STARTWAIT \<and> mux_manualstart (user s') = ms \<and>
         mux_curpos (user s') = 0 \<and>
         (mididev_clksrc (user s) = None \<and> mididev_mtcsrc (user s) = None \<longrightarrow>
            mux_phase (user s') = MUX_START \<and> mux_nextpos (user s') = MUX_START_DELAY \<and>
            phases (user s') = phases (user s) @ [MUX_STARTWAIT, MUX_START]) \<and>
         (\<not> (mididev_clksrc (user s) = None \<and> mididev_mtcsrc (user s) = None) \<longrightarrow>
            mux_phase (user s') = MUX_STARTWAIT \<and>
            mux_nextpos (user s') = mux_ticlength (user s) \<and>
            phases (user s') = phases (user s) @ [MUX_STARTWAIT])))"
proof -
  have c: "\<not> MUX_START \<le> MUX_STARTWAIT" "MUX_STARTWAIT \<noteq> MUX_STOP"
    by (simp_all add: mux_phase_defs)
  show ?thesis
    by (simp add: mux_startreq_def mux_mtcstart_def mux_startcb_def Let_def mux_state_defs c)
qed

theorem mux_startreq_cases_witness:
  "mux_phase (user (mux_open [clock_dev])) = MUX_STOP \<and>
   mididev_clksrc (user (mux_open [clock_dev])) = None \<and>
   mididev_mtcsrc (user (mux_open [clock_dev])) = None \<and>
   mux_phase (user (started 0)) = MUX_START \<and>
   mux_reqphase (user (started 0)) = MUX_STARTWAIT \<and>
   mux_curpos (user (started 0)) = 0 \<and> mux_nextpos (user (started 0)) = 8000000 \<and>
   phases (user (started 0)) = [MUX_STARTWAIT, MUX_START] \<and>
   mux_startreq no_goto 0 (started 0) = Inl Bad_state_startreq"
proof -
  have o: "mux_phase (user (mux_open [clock_dev])) = MUX_STOP"
    "mididev_clksrc (user (mux_open [clock_dev])) = None"
    "mididev_mtcsrc (user (mux_open [clock_dev])) = None"
    "phases (user (mux_open [clock_dev])) = []"
    by (simp_all add: mux_open_def timo_init_def)
  have p: "mux_phase (user (started 0)) = MUX_START"
    by code_simp
  then have q: "mux_phase (user (started 0)) \<noteq> MUX_STOP"
    by (simp add: mux_phase_defs)
  from mux_startreq_cases [of "mux_open [clock_dev]" no_goto 0] o obtain s' where
    s': "mux_startreq no_goto 0 (mux_open [clock_dev]) = Inr s'" and
    r: "mux_reqphase (user s') = MUX_STARTWAIT" "mux_curpos (user s') = 0"
      "mux_phase (user s') = MUX_START" "mux_nextpos (user s') = MUX_START_DELAY"
      "phases (user s') = [] @ [MUX_STARTWAIT, MUX_START]"
    by auto
  have st: "started 0 = s'"
    by (simp add: started_def s')
  show ?thesis
    using mux_startreq_cases [of "started 0" no_goto 0] q o r
    by (simp add: st MUX_START_DELAY_def)
qed

text \<open>
  The claim as stated fails without an external source: on return from
  \<^verbatim>\<open>mux_startreq\<close> the phase is \<open>START\<close>, not \<open>STARTWAIT\<close>.
\<close>

theorem mux_startreq_phase_counterexample:
  "mux_phase (user (mux_open [clock_dev])) = MUX_STOP \<and>
   mididev_clksrc (user (mux_open [clock_dev])) = None \<and>
   mididev_mtcsrc (user (mux_open [clock_dev])) = None \<and>
   \<not> isl (mux_startreq no_goto 0 (mux_open [clock_dev])) \<and>
   mux_phase (user (projr (mux_startreq no_goto 0 (mux_open [clock_dev])))) = MUX_START \<and>
   MUX_START \<noteq> MUX_STARTWAIT"
  by code_simp

subsection \<open>Ticks from the internal timer\<close>

lemma timo_update_loop_transport:
  assumes run: "timo_update_loop call s = Some s'"
    and cb: "\<forall>c a w. transport (call c a w) = transport w"
  shows "transport s' = transport s"
proof -
  have "call' = call \<longrightarrow> transport s' = transport s"
    if "timo_update_loop call' s = Some s'" for call'
  proof (rule timo_update_loop.raw_induct
      [where P = "\<lambda>c w w'. c = call \<longrightarrow> transport w' = transport w", OF _ that])
    fix loop :: "(nat \<Rightarrow> nat \<Rightarrow> world \<Rightarrow> world) \<Rightarrow> world \<Rightarrow> world option"
    fix c w w'
    assume ih: "\<And>c w w'. loop c w = Some w' \<Longrightarrow> c = call \<longrightarrow> transport w' = transport w"
    assume body: "(case timo_queue w of [] \<Rightarrow> Some w
          | to # rest \<Rightarrow>
              if 0 < sint (val (timos w to) - timo_abstime w) then Some w
              else loop c (c (cb (timos w to)) (arg (timos w to))
                     (w\<lparr>timo_queue := rest,
                        timos := (timos w)(to := (timos w to)\<lparr>set_flag := 0\<rparr>)\<rparr>))) = Some w'"
    show "c = call \<longrightarrow> transport w' = transport w"
    proof
      assume c: "c = call"
      show "transport w' = transport w"
      proof (cases "timo_queue w")
        case Nil
        with body show ?thesis by simp
      next
        case (Cons to rest)
        show ?thesis
        proof (cases "0 < sint (val (timos w to) - timo_abstime w)")
          case True
          with body Cons show ?thesis by simp
        next
          case False
          let ?w1 = "w\<lparr>timo_queue := rest, timos := (timos w)(to := (timos w to)\<lparr>set_flag := 0\<rparr>)\<rparr>"
          from body Cons False
          have "loop c (c (cb (timos w to)) (arg (timos w to)) ?w1) = Some w'"
            by simp
          from ih [OF this] c
          have "transport w' = transport (call (cb (timos w to)) (arg (timos w to)) ?w1)"
            by simp
          also have "\<dots> = transport ?w1"
            using cb by simp
          also have "\<dots> = transport w"
            by (simp add: transport_def)
          finally show ?thesis .
        qed
      qed
    qed
  qed
  from this [OF run] show ?thesis
    by simp
qed

lemma timercb_timeouts_transport:
  assumes cb: "\<forall>c a w. transport (call c a w) = transport w"
    and tm: "\<forall>w d. timo_update call w d \<noteq> None"
  shows "\<exists>s'. timercb_timeouts call d s = Some s' \<and> transport s' = transport s"
proof -
  let ?s0 = "mux_upd (\<lambda>m. m\<lparr>mux_wallclock := mux_wallclock m + d\<rparr>) s"
  from tm have "timo_update call ?s0 (ucast d) \<noteq> None"
    by simp
  then obtain s1 where s1: "timo_update call ?s0 (ucast d) = Some s1"
    by (cases "timo_update call ?s0 (ucast d)") simp_all
  then have "transport s1 = transport (?s0\<lparr>timo_abstime := timo_abstime ?s0 + ucast d\<rparr>)"
    using cb unfolding timo_update_def by (rule timo_update_loop_transport)
  then have "transport s1 = transport s"
    by (simp add: transport_def mux_upd_def)
  then have "transport (mux_upd (\<lambda>m. m\<lparr>mididev_list := map (timercb_dev d) (mididev_list m)\<rparr>) s1) =
               transport s"
    by (simp add: transport_def mux_upd_def)
  moreover have "timercb_timeouts call d s =
      Some (mux_upd (\<lambda>m. m\<lparr>mididev_list := map (timercb_dev d) (mididev_list m)\<rparr>) s1)"
    by (simp only: timercb_timeouts_def s1 option.map)
  ultimately show ?thesis
    by simp
qed

lemma sendtic_loop_total:
  assumes "r \<noteq> 0"
  shows "\<exists>d'. sendtic_loop r d = Some d'"
proof (induction "unat (ticdelta d)" arbitrary: d rule: less_induct)
  case less
  show ?case
  proof (cases "r \<le> ticdelta d")
    case True
    let ?d = "(mididev_puttic d)\<lparr>ticdelta := ticdelta d - r\<rparr>"
    have "unat (ticdelta d - r) = unat (ticdelta d) - unat r"
      using True by (simp add: unat_sub)
    moreover have "0 < unat r"
      using assms by (simp add: unat_gt_0)
    moreover have "unat r \<le> unat (ticdelta d)"
      using True by (simp add: word_le_nat_alt)
    ultimately have "unat (ticdelta ?d) < unat (ticdelta d)"
      by simp
    from less [OF this] obtain d' where "sendtic_loop r ?d = Some d'"
      by blast
    with True show ?thesis
      by (subst sendtic_loop.simps) simp
  next
    case False
    then show ?thesis
      by (subst sendtic_loop.simps) simp
  qed
qed

lemma sendtic_devs_total:
  "r \<noteq> 0 \<Longrightarrow> \<exists>ds'. sendtic_devs r c i ds = Some ds'"
proof (induction ds arbitrary: i)
  case Nil
  then show ?case by simp
next
  case (Cons d ds)
  from Cons.IH [OF Cons.prems] obtain ds' where "sendtic_devs r c (Suc i) ds = Some ds'"
    by blast
  moreover from sendtic_loop_total [OF Cons.prems] obtain d' where "sendtic_loop r d = Some d'"
    by blast
  ultimately show ?case
    by simp
qed

lemma mux_sendtic_transport:
  assumes "mux_ticrate (user s) \<noteq> 0"
  shows "\<exists>s'. mux_sendtic s = Some s' \<and> transport s' = transport s"
proof -
  from sendtic_devs_total [OF assms] obtain ds' where
    "sendtic_devs (mux_ticrate (user s)) (mididev_clksrc (user s)) 0 (mididev_list (user s)) =
       Some ds'"
    by blast
  then show ?thesis
    by (simp add: mux_sendtic_def transport_def mux_upd_def)
qed

lemma mux_ticcb_noclk:
  "mididev_clksrc (user s) = None \<Longrightarrow> mux_ticcb s = ticcb_tick (ticcb_phase s)"
  by (subst mux_ticcb.simps) simp

lemma mux_ticcb_first:
  assumes "mididev_clksrc (user s) = None" and "mux_phase (user s) = MUX_START"
    and "mux_ticrate (user s) \<noteq> 0"
  shows "\<exists>s'. mux_ticcb s = Some s' \<and>
           transport s' = (transport s)\<lparr>mux_curpos := 0, mux_nextpos := mux_ticlength (user s),
             mux_curtic := 0, mux_phase := MUX_FIRST,
             song_calls := song_calls (user s) @ [Song_startcb],
             phases := phases (user s) @ [MUX_FIRST]\<rparr>"
proof -
  let ?s1 = "mux_upd (\<lambda>m. m\<lparr>mux_curtic := 0\<rparr>) (ticcb_phase s)"
  have ph: "mux_phase (user (ticcb_phase s)) = MUX_FIRST"
    using assms(2) by (simp add: ticcb_phase_def mux_state_defs mux_phase_defs)
  have "mux_ticrate (user ?s1) \<noteq> 0"
    using assms by (simp add: ticcb_phase_def mux_state_defs mux_phase_defs)
  from mux_sendtic_transport [OF this] obtain s2 where
    s2: "mux_sendtic ?s1 = Some s2" and t2: "transport s2 = transport ?s1"
    by blast
  have "mux_ticcb s = Some (song_call Song_startcb s2)"
    using ph s2 by (simp add: mux_ticcb_noclk assms(1) ticcb_tick_def mux_phase_defs)
  moreover have "transport (song_call Song_startcb s2) =
                   (transport s2)\<lparr>song_calls := song_calls (transport s2) @ [Song_startcb]\<rparr>"
    by (simp add: transport_def song_call_def mux_upd_def)
  ultimately show ?thesis
    using assms(2)
    by (simp add: t2) (simp add: transport_def ticcb_phase_def mux_state_defs mux_phase_defs)
qed

lemma mux_ticcb_next:
  assumes "mididev_clksrc (user s) = None"
    and "mux_phase (user s) = MUX_FIRST \<or> mux_phase (user s) = MUX_NEXT"
    and "mux_ticrate (user s) \<noteq> 0"
  shows "\<exists>s'. mux_ticcb s = Some s' \<and>
           transport s' = (transport s)\<lparr>mux_curtic := mux_curtic (user s) + 1,
             mux_phase := MUX_NEXT,
             song_calls := song_calls (user s) @ [Song_movecb],
             phases := phases (user s) @
               (if mux_phase (user s) = MUX_FIRST then [MUX_NEXT] else [])\<rparr>"
proof -
  let ?s1 = "mux_upd (\<lambda>m. m\<lparr>mux_curtic := mux_curtic m + 1\<rparr>) (ticcb_phase s)"
  have ph: "mux_phase (user (ticcb_phase s)) = MUX_NEXT"
    using assms(2) by (auto simp: ticcb_phase_def mux_state_defs mux_phase_defs)
  have "mux_ticrate (user ?s1) \<noteq> 0"
    using assms by (auto simp: ticcb_phase_def mux_state_defs mux_phase_defs)
  from mux_sendtic_transport [OF this] obtain s2 where
    s2: "mux_sendtic ?s1 = Some s2" and t2: "transport s2 = transport ?s1"
    by blast
  have "mux_ticcb s = Some (song_call Song_movecb s2)"
    using ph s2 by (simp add: mux_ticcb_noclk assms(1) ticcb_tick_def mux_phase_defs)
  moreover have "transport (song_call Song_movecb s2) =
                   (transport s2)\<lparr>song_calls := song_calls (transport s2) @ [Song_movecb]\<rparr>"
    by (simp add: transport_def song_call_def mux_upd_def)
  ultimately show ?thesis
    using assms(2)
    by (simp add: t2) (auto simp: transport_def ticcb_phase_def mux_state_defs mux_phase_defs)
qed

lemma transport_fields [simp]:
  "mididev_clksrc (transport s) = mididev_clksrc (user s)"
  "mididev_mtcsrc (transport s) = mididev_mtcsrc (user s)"
  "mux_ticrate (transport s) = mux_ticrate (user s)"
  "mux_ticlength (transport s) = mux_ticlength (user s)"
  "mux_curpos (transport s) = mux_curpos (user s)"
  "mux_nextpos (transport s) = mux_nextpos (user s)"
  "mux_curtic (transport s) = mux_curtic (user s)"
  "mux_phase (transport s) = mux_phase (user s)"
  "mux_reqphase (transport s) = mux_reqphase (user s)"
  "mux_manualstart (transport s) = mux_manualstart (user s)"
  "song_calls (transport s) = song_calls (user s)"
  "phases (transport s) = phases (user s)"
  by (simp_all add: transport_def)

text \<open>
  The loop of \<^verbatim>\<open>mux_mtctick\<close> while playing: it ends, and it fires one tick for
  each whole tick length in \<^verbatim>\<open>mux_curpos\<close>, of which it keeps the rest.
\<close>

lemma mtctick_loop_ticks:
  assumes "mididev_clksrc (user s) = None" and "mux_ticrate (user s) \<noteq> 0"
    and "mux_ticlength (user s) \<noteq> 0" and "mux_nextpos (user s) = mux_ticlength (user s)"
    and "mux_phase (user s) = MUX_FIRST \<or> mux_phase (user s) = MUX_NEXT"
  shows "\<exists>s'. mtctick_loop s = Some s' \<and>
           transport s' = (transport s)\<lparr>
             mux_curpos := of_nat (unat (mux_curpos (user s)) mod unat (mux_ticlength (user s))),
             mux_curtic := mux_curtic (user s) +
               of_nat (unat (mux_curpos (user s)) div unat (mux_ticlength (user s))),
             mux_phase :=
               (if unat (mux_curpos (user s)) div unat (mux_ticlength (user s)) = 0
                then mux_phase (user s) else MUX_NEXT),
             song_calls := song_calls (user s) @
               replicate (unat (mux_curpos (user s)) div unat (mux_ticlength (user s))) Song_movecb,
             phases := phases (user s) @
               (if mux_phase (user s) = MUX_FIRST \<and>
                   0 < unat (mux_curpos (user s)) div unat (mux_ticlength (user s))
                then [MUX_NEXT] else [])\<rparr>"
  using assms
proof (induction "unat (mux_curpos (user s))" arbitrary: s rule: less_induct)
  case less
  let ?c = "unat (mux_curpos (user s))"
  let ?t = "unat (mux_ticlength (user s))"
  have t0: "0 < ?t"
    using less.prems(3) by (simp add: unat_gt_0)
  show ?case
  proof (cases "mux_nextpos (user s) \<le> mux_curpos (user s)")
    case False
    then have lt: "?c < ?t"
      using less.prems(4) by (simp add: word_le_nat_alt)
    have "mtctick_loop s = Some s"
      using False by (subst mtctick_loop.simps) simp
    moreover have "transport s = (transport s)\<lparr>
             mux_curpos := of_nat (?c mod ?t),
             mux_curtic := mux_curtic (user s) + of_nat (?c div ?t),
             mux_phase := (if ?c div ?t = 0 then mux_phase (user s) else MUX_NEXT),
             song_calls := song_calls (user s) @ replicate (?c div ?t) Song_movecb,
             phases := phases (user s) @
               (if mux_phase (user s) = MUX_FIRST \<and> 0 < ?c div ?t then [MUX_NEXT] else [])\<rparr>"
      using lt by (simp add: transport_def)
    ultimately show ?thesis
      by simp
  next
    case True
    then have ge: "?t \<le> ?c"
      using less.prems(4) by (simp add: word_le_nat_alt)
    let ?s2 = "mux_upd (\<lambda>m. m\<lparr>mux_nextpos := mux_ticlength m\<rparr>)
                 (mux_upd (\<lambda>m. m\<lparr>mux_curpos := mux_curpos m - mux_nextpos m\<rparr>) s)"
    have u2: "user ?s2 = (user s)\<lparr>mux_curpos := mux_curpos (user s) - mux_ticlength (user s)\<rparr>"
      using less.prems(4) by (simp add: mux_upd_def)
    have nstart: "mux_phase (user ?s2) \<noteq> MUX_START"
      using less.prems(5) by (auto simp: u2 mux_phase_defs)
    from mux_ticcb_next [of ?s2] less.prems obtain s3 where
      s3: "mux_ticcb ?s2 = Some s3" and
      t3: "transport s3 = (transport ?s2)\<lparr>mux_curtic := mux_curtic (user s) + 1,
             mux_phase := MUX_NEXT,
             song_calls := song_calls (user s) @ [Song_movecb],
             phases := phases (user s) @
               (if mux_phase (user s) = MUX_FIRST then [MUX_NEXT] else [])\<rparr>"
      by (auto simp: u2)
    have f3: "mididev_clksrc (user s3) = None" "mux_ticrate (user s3) \<noteq> 0"
      "mux_ticlength (user s3) = mux_ticlength (user s)"
      "mux_nextpos (user s3) = mux_ticlength (user s)"
      "mux_phase (user s3) = MUX_NEXT"
      "mux_curpos (user s3) = mux_curpos (user s) - mux_ticlength (user s)"
      "mux_curtic (user s3) = mux_curtic (user s) + 1"
      "song_calls (user s3) = song_calls (user s) @ [Song_movecb]"
      "phases (user s3) = phases (user s) @
               (if mux_phase (user s) = MUX_FIRST then [MUX_NEXT] else [])"
      using less.prems arg_cong [OF t3, of mididev_clksrc] arg_cong [OF t3, of mux_ticrate]
        arg_cong [OF t3, of mux_ticlength] arg_cong [OF t3, of mux_nextpos]
        arg_cong [OF t3, of mux_phase] arg_cong [OF t3, of mux_curpos]
        arg_cong [OF t3, of mux_curtic] arg_cong [OF t3, of song_calls]
        arg_cong [OF t3, of phases]
      by (simp_all add: u2 transport_def)
    have c3: "unat (mux_curpos (user s3)) = ?c - ?t"
      using ge by (simp add: f3 unat_sub word_le_nat_alt)
    then have smaller: "unat (mux_curpos (user s3)) < ?c"
      using ge t0 by simp
    have p3: "mididev_clksrc (user s3) = None" "mux_ticrate (user s3) \<noteq> 0"
      "mux_ticlength (user s3) \<noteq> 0" "mux_nextpos (user s3) = mux_ticlength (user s3)"
      "mux_phase (user s3) = MUX_FIRST \<or> mux_phase (user s3) = MUX_NEXT"
      using less.prems(3) by (simp_all add: f3)
    from less.hyps [OF smaller p3] obtain s' where
      run: "mtctick_loop s3 = Some s'" and
      t': "transport s' = (transport s3)\<lparr>
             mux_curpos := of_nat (unat (mux_curpos (user s3)) mod unat (mux_ticlength (user s3))),
             mux_curtic := mux_curtic (user s3) +
               of_nat (unat (mux_curpos (user s3)) div unat (mux_ticlength (user s3))),
             mux_phase :=
               (if unat (mux_curpos (user s3)) div unat (mux_ticlength (user s3)) = 0
                then mux_phase (user s3) else MUX_NEXT),
             song_calls := song_calls (user s3) @
               replicate (unat (mux_curpos (user s3)) div unat (mux_ticlength (user s3))) Song_movecb,
             phases := phases (user s3) @
               (if mux_phase (user s3) = MUX_FIRST \<and>
                   0 < unat (mux_curpos (user s3)) div unat (mux_ticlength (user s3))
                then [MUX_NEXT] else [])\<rparr>"
      by blast
    have nf: "MUX_NEXT \<noteq> MUX_FIRST"
      by (simp add: mux_phase_defs)
    have dv: "?c div ?t = Suc ((?c - ?t) div ?t)" and md: "?c mod ?t = (?c - ?t) mod ?t"
      using ge t0 by (simp_all add: le_div_geq le_mod_geq)
    have "mtctick_loop s = mtctick_loop s3"
      using True nstart s3 by (subst mtctick_loop.simps) (simp add: Let_def)
    then have "mtctick_loop s = Some s'"
      by (simp add: run)
    moreover have "transport s' = (transport s)\<lparr>
             mux_curpos := of_nat (?c mod ?t),
             mux_curtic := mux_curtic (user s) + of_nat (?c div ?t),
             mux_phase := (if ?c div ?t = 0 then mux_phase (user s) else MUX_NEXT),
             song_calls := song_calls (user s) @ replicate (?c div ?t) Song_movecb,
             phases := phases (user s) @
               (if mux_phase (user s) = MUX_FIRST \<and> 0 < ?c div ?t then [MUX_NEXT] else [])\<rparr>"
      unfolding t' t3 c3 f3(3) f3(5) f3(7) f3(8) f3(9) dv md
      using nf by (simp add: transport_def u2 replicate_append_same add.assoc)
    ultimately show ?thesis
      by blast
  qed
qed

lemma transport_eqD:
  assumes "transport a = transport b"
  shows "mididev_clksrc (user a) = mididev_clksrc (user b)"
    and "mididev_mtcsrc (user a) = mididev_mtcsrc (user b)"
    and "mux_ticrate (user a) = mux_ticrate (user b)"
    and "mux_ticlength (user a) = mux_ticlength (user b)"
    and "mux_curpos (user a) = mux_curpos (user b)"
    and "mux_nextpos (user a) = mux_nextpos (user b)"
    and "mux_curtic (user a) = mux_curtic (user b)"
    and "mux_phase (user a) = mux_phase (user b)"
    and "mux_manualstart (user a) = mux_manualstart (user b)"
    and "song_calls (user a) = song_calls (user b)"
    and "phases (user a) = phases (user b)"
  using arg_cong [OF assms, of mididev_clksrc] arg_cong [OF assms, of mididev_mtcsrc]
    arg_cong [OF assms, of mux_ticrate] arg_cong [OF assms, of mux_ticlength]
    arg_cong [OF assms, of mux_curpos] arg_cong [OF assms, of mux_nextpos]
    arg_cong [OF assms, of mux_curtic] arg_cong [OF assms, of mux_phase]
    arg_cong [OF assms, of mux_manualstart] arg_cong [OF assms, of song_calls]
    arg_cong [OF assms, of phases]
  by simp_all

lemma internal_clock_transport:
  assumes "transport a = transport b"
  shows "internal_clock a = internal_clock b"
  unfolding internal_clock_def transport_eqD(1-4) [OF assms] by (rule refl)

lemma unat_add_no_wrap:
  fixes c d :: u64
  assumes "unat c + unat d < 2 ^ 64"
  shows "unat (c + d) = unat c + unat d"
  by (rule unat_add_lem [THEN iffD1]) (use assms in simp)

text \<open>In the phase \<open>START\<close>, before the start delay has passed: no tick.\<close>

lemma timercb_ticks_wait:
  assumes ic: "internal_clock s" and ph: "mux_phase (user s) = MUX_START"
    and lt: "unat (mux_curpos (user s)) + unat d < unat (mux_nextpos (user s))"
  shows "timercb_ticks d s = Some (Inr (mux_upd (\<lambda>m. m\<lparr>mux_curpos := mux_curpos m + d\<rparr>) s))"
proof -
  have "unat (mux_nextpos (user s)) < 2 ^ 64"
    using unsigned_less [of "mux_nextpos (user s)", where 'a = nat] by simp
  then have "unat (mux_curpos (user s)) + unat d < 2 ^ 64"
    using lt by linarith
  then have "unat (mux_curpos (user s) + d) = unat (mux_curpos (user s)) + unat d"
    by (rule unat_add_no_wrap)
  then have "\<not> mux_nextpos (user s) \<le> mux_curpos (user s) + d"
    using lt by (simp add: word_le_nat_alt)
  then show ?thesis
    using ic ph
    by (simp add: timercb_ticks_def internal_clock_def Let_def mux_upd_def mux_phase_defs)
qed

text \<open>
  In the phase \<open>START\<close> with \<^verbatim>\<open>mux_manualstart = 0\<close>, when the start delay has
  passed: the first tick.
\<close>

lemma timercb_ticks_fire:
  assumes ic: "internal_clock s" and ph: "mux_phase (user s) = MUX_START"
    and ms: "mux_manualstart (user s) = 0"
    and ge: "unat (mux_nextpos (user s)) \<le> unat (mux_curpos (user s)) + unat d"
    and no: "unat (mux_curpos (user s)) + unat d < 2 ^ 64"
  shows "\<exists>s'. timercb_ticks d s = Some (Inr s') \<and>
           transport s' = (transport s)\<lparr>mux_curpos := 0, mux_nextpos := mux_ticlength (user s),
             mux_curtic := 0, mux_phase := MUX_FIRST,
             song_calls := song_calls (user s) @ [Song_startcb],
             phases := phases (user s) @ [MUX_FIRST]\<rparr>"
proof -
  let ?s1 = "mux_upd (\<lambda>m. m\<lparr>mux_curpos := mux_curpos m + d\<rparr>) s"
  define s2 where "s2 = mux_upd (\<lambda>m. m\<lparr>mux_curpos := 0, mux_nextpos := 0\<rparr>) ?s1"
  define s4 where "s4 = s\<lparr>user := (user s)\<lparr>mux_curpos := 0,
                                             mux_nextpos := mux_ticlength (user s)\<rparr>\<rparr>"
  have "unat (mux_curpos (user s) + d) = unat (mux_curpos (user s)) + unat d"
    using no by (rule unat_add_no_wrap)
  then have reach: "mux_nextpos (user ?s1) \<le> mux_curpos (user ?s1)"
    using ge by (simp add: word_le_nat_alt mux_upd_def)
  have u4: "user s4 = (user s)\<lparr>mux_curpos := 0, mux_nextpos := mux_ticlength (user s)\<rparr>"
    by (simp add: s4_def)
  have p4: "mididev_clksrc (user s4) = None" "mux_phase (user s4) = MUX_START"
    "mux_ticrate (user s4) \<noteq> 0"
    using ic ph by (simp_all add: u4 internal_clock_def)
  from mux_ticcb_first [OF p4] obtain s5 where
    s5: "mux_ticcb s4 = Some s5" and
    t5: "transport s5 = (transport s4)\<lparr>mux_curpos := 0, mux_nextpos := mux_ticlength (user s4),
             mux_curtic := 0, mux_phase := MUX_FIRST,
             song_calls := song_calls (user s4) @ [Song_startcb],
             phases := phases (user s4) @ [MUX_FIRST]\<rparr>"
    by blast
  have f5: "mux_nextpos (user s5) = mux_ticlength (user s)" "mux_curpos (user s5) = 0"
    using arg_cong [OF t5, of mux_nextpos] arg_cong [OF t5, of mux_curpos]
    by (simp_all add: u4)
  have tl: "mux_ticlength (user s) \<noteq> 0"
    using ic by (simp add: internal_clock_def)
  have stop: "mtctick_loop s5 = Some s5"
    using tl by (subst mtctick_loop.simps) (simp add: f5)
  have "mux_mtctick 0 s2 = Option.bind (mux_ticcb s4) mtctick_loop"
    unfolding mux_mtctick_def
    using ms by (subst mtctick_loop.simps) (simp add: s2_def s4_def mux_upd_def Let_def)
  then have "mux_mtctick 0 s2 = Some s5"
    by (simp add: s5 stop)
  then have "timercb_ticks d s = Some (Inr s5)"
    using ic ph reach
    by (simp add: timercb_ticks_def internal_clock_def Let_def mux_phase_defs s2_def)
  moreover have "transport s5 = (transport s)\<lparr>mux_curpos := 0,
             mux_nextpos := mux_ticlength (user s),
             mux_curtic := 0, mux_phase := MUX_FIRST,
             song_calls := song_calls (user s) @ [Song_startcb],
             phases := phases (user s) @ [MUX_FIRST]\<rparr>"
    unfolding t5 by (simp add: u4 transport_def)
  ultimately show ?thesis
    by (intro exI [of _ s5] conjI)
qed

lemma ucast_down_up:
  fixes d :: u64
  assumes "unat d < 2 ^ 32"
  shows "(ucast (ucast d :: u32) :: u64) = d"
proof -
  have "unat (take_bit 32 d) = take_bit 32 (unat d)"
    by (simp add: unsigned_take_bit_eq)
  also have "\<dots> = unat d"
    using assms by (simp only: take_bit_nat_eq_self)
  finally have "take_bit 32 d = d"
    by (simp only: word_unat_eq_iff)
  moreover have "(ucast (ucast d :: u32) :: u64) = take_bit 32 d"
    by (rule bit_word_eqI) (auto simp: bit_simps)
  ultimately show ?thesis
    by simp
qed

text \<open>While playing: one tick for each tick length that has passed.\<close>

lemma timercb_ticks_play:
  assumes ic: "internal_clock s"
    and ph: "mux_phase (user s) = MUX_FIRST \<or> mux_phase (user s) = MUX_NEXT"
    and np: "mux_nextpos (user s) = mux_ticlength (user s)"
    and d: "unat d < 2 ^ 32"
    and no: "unat (mux_curpos (user s)) + unat d < 2 ^ 64"
  shows "\<exists>s'. timercb_ticks d s = Some (Inr s') \<and>
           transport s' = (transport s)\<lparr>
             mux_curpos := of_nat ((unat (mux_curpos (user s)) + unat d) mod
                                     unat (mux_ticlength (user s))),
             mux_curtic := mux_curtic (user s) +
               of_nat ((unat (mux_curpos (user s)) + unat d) div unat (mux_ticlength (user s))),
             mux_phase :=
               (if (unat (mux_curpos (user s)) + unat d) div unat (mux_ticlength (user s)) = 0
                then mux_phase (user s) else MUX_NEXT),
             song_calls := song_calls (user s) @
               replicate ((unat (mux_curpos (user s)) + unat d) div
                            unat (mux_ticlength (user s))) Song_movecb,
             phases := phases (user s) @
               (if mux_phase (user s) = MUX_FIRST \<and>
                   0 < (unat (mux_curpos (user s)) + unat d) div unat (mux_ticlength (user s))
                then [MUX_NEXT] else [])\<rparr>"
proof -
  define s0 where "s0 = s\<lparr>user := (user s)\<lparr>mux_curpos := mux_curpos (user s) + d\<rparr>\<rparr>"
  have u0: "user s0 = (user s)\<lparr>mux_curpos := mux_curpos (user s) + d\<rparr>"
    by (simp add: s0_def)
  have c0: "unat (mux_curpos (user s0)) = unat (mux_curpos (user s)) + unat d"
    using no by (simp add: u0 unat_add_no_wrap)
  have p0: "mididev_clksrc (user s0) = None" "mux_ticrate (user s0) \<noteq> 0"
    "mux_ticlength (user s0) \<noteq> 0" "mux_nextpos (user s0) = mux_ticlength (user s0)"
    "mux_phase (user s0) = MUX_FIRST \<or> mux_phase (user s0) = MUX_NEXT"
    using ic ph np by (simp_all add: u0 internal_clock_def)
  note r = mtctick_loop_ticks [OF p0, unfolded c0]
  have tick: "mux_mtctick (ucast d) s = mtctick_loop s0"
    by (simp add: mux_mtctick_def ucast_down_up [OF d] s0_def mux_upd_def)
  have ns: "mux_phase (user s) \<noteq> MUX_STARTWAIT" "mux_phase (user s) \<noteq> MUX_START"
    using ph by (auto simp: mux_phase_defs)
  have t0: "(transport s0)\<lparr>mux_curpos := x\<rparr> = (transport s)\<lparr>mux_curpos := x\<rparr>" for x
    by (simp add: transport_def u0)
  from r obtain s' where run: "mtctick_loop s0 = Some s'" and
    t': "transport s' = (transport s0)\<lparr>
             mux_curpos := of_nat ((unat (mux_curpos (user s)) + unat d) mod
                                     unat (mux_ticlength (user s0))),
             mux_curtic := mux_curtic (user s0) +
               of_nat ((unat (mux_curpos (user s)) + unat d) div unat (mux_ticlength (user s0))),
             mux_phase :=
               (if (unat (mux_curpos (user s)) + unat d) div unat (mux_ticlength (user s0)) = 0
                then mux_phase (user s0) else MUX_NEXT),
             song_calls := song_calls (user s0) @
               replicate ((unat (mux_curpos (user s)) + unat d) div
                            unat (mux_ticlength (user s0))) Song_movecb,
             phases := phases (user s0) @
               (if mux_phase (user s0) = MUX_FIRST \<and>
                   0 < (unat (mux_curpos (user s)) + unat d) div unat (mux_ticlength (user s0))
                then [MUX_NEXT] else [])\<rparr>"
    by (elim exE conjE)
  have "timercb_ticks d s = Some (Inr s')"
    using ic ph ns by (simp add: timercb_ticks_def internal_clock_def tick run)
  moreover have "transport s' = (transport s)\<lparr>
             mux_curpos := of_nat ((unat (mux_curpos (user s)) + unat d) mod
                                     unat (mux_ticlength (user s))),
             mux_curtic := mux_curtic (user s) +
               of_nat ((unat (mux_curpos (user s)) + unat d) div unat (mux_ticlength (user s))),
             mux_phase :=
               (if (unat (mux_curpos (user s)) + unat d) div unat (mux_ticlength (user s)) = 0
                then mux_phase (user s) else MUX_NEXT),
             song_calls := song_calls (user s) @
               replicate ((unat (mux_curpos (user s)) + unat d) div
                            unat (mux_ticlength (user s))) Song_movecb,
             phases := phases (user s) @
               (if mux_phase (user s) = MUX_FIRST \<and>
                   0 < (unat (mux_curpos (user s)) + unat d) div unat (mux_ticlength (user s))
                then [MUX_NEXT] else [])\<rparr>"
    unfolding t' t0 by (simp add: u0)
  ultimately show ?thesis
    by (intro exI [of _ s'] conjI)
qed

lemma mux_timercb_step:
  assumes ok: "callbacks_ok call"
    and ticks: "\<And>s1. transport s1 = transport s \<Longrightarrow>
                  \<exists>s'. timercb_ticks d s1 = Some (Inr s') \<and> transport s' = T"
  shows "\<exists>s'. mux_timercb call d s = Some (Inr s') \<and> transport s' = T"
proof -
  from ok have cb: "\<forall>c a w. transport (call c a w) = transport w"
    and tm: "\<forall>w d. timo_update call w d \<noteq> None"
    by (simp_all add: callbacks_ok_def)
  from timercb_timeouts_transport [OF cb tm, of d s] obtain s1 where
    s1: "timercb_timeouts call d s = Some s1" and t1: "transport s1 = transport s"
    by (elim exE conjE)
  from ticks [OF t1] obtain s' where "timercb_ticks d s1 = Some (Inr s')" "transport s' = T"
    by (elim exE conjE)
  then show ?thesis
    by (simp add: mux_timercb_def s1)
qed

lemma mux_timercb_wait:
  assumes ok: "callbacks_ok call" and ic: "internal_clock s"
    and ph: "mux_phase (user s) = MUX_START"
    and lt: "unat (mux_curpos (user s)) + unat d < unat (mux_nextpos (user s))"
  shows "\<exists>s'. mux_timercb call d s = Some (Inr s') \<and>
           transport s' = (transport s)\<lparr>mux_curpos := mux_curpos (user s) + d\<rparr>"
proof (rule mux_timercb_step [OF ok])
  fix s1 assume t1: "transport s1 = transport s"
  note e = transport_eqD [OF t1]
  have "timercb_ticks d s1 = Some (Inr (mux_upd (\<lambda>m. m\<lparr>mux_curpos := mux_curpos m + d\<rparr>) s1))"
    using ic ph lt
    by (intro timercb_ticks_wait) (simp_all add: e internal_clock_transport [OF t1])
  moreover have "transport (mux_upd (\<lambda>m. m\<lparr>mux_curpos := mux_curpos m + d\<rparr>) s1) =
                   (transport s1)\<lparr>mux_curpos := mux_curpos (user s1) + d\<rparr>"
    by (simp add: transport_def mux_upd_def)
  ultimately show "\<exists>s'. timercb_ticks d s1 = Some (Inr s') \<and>
           transport s' = (transport s)\<lparr>mux_curpos := mux_curpos (user s) + d\<rparr>"
    by (simp add: t1 e)
qed

lemma mux_timercb_fire:
  assumes ok: "callbacks_ok call" and ic: "internal_clock s"
    and ph: "mux_phase (user s) = MUX_START"
    and ms: "mux_manualstart (user s) = 0"
    and ge: "unat (mux_nextpos (user s)) \<le> unat (mux_curpos (user s)) + unat d"
    and no: "unat (mux_curpos (user s)) + unat d < 2 ^ 64"
  shows "\<exists>s'. mux_timercb call d s = Some (Inr s') \<and>
           transport s' = (transport s)\<lparr>mux_curpos := 0, mux_nextpos := mux_ticlength (user s),
             mux_curtic := 0, mux_phase := MUX_FIRST,
             song_calls := song_calls (user s) @ [Song_startcb],
             phases := phases (user s) @ [MUX_FIRST]\<rparr>"
proof (rule mux_timercb_step [OF ok])
  fix s1 assume t1: "transport s1 = transport s"
  note e = transport_eqD [OF t1]
  have "\<exists>s'. timercb_ticks d s1 = Some (Inr s') \<and>
           transport s' = (transport s1)\<lparr>mux_curpos := 0, mux_nextpos := mux_ticlength (user s1),
             mux_curtic := 0, mux_phase := MUX_FIRST,
             song_calls := song_calls (user s1) @ [Song_startcb],
             phases := phases (user s1) @ [MUX_FIRST]\<rparr>"
    using ic ph ms ge no
    by (intro timercb_ticks_fire) (simp_all add: e internal_clock_transport [OF t1])
  then show "\<exists>s'. timercb_ticks d s1 = Some (Inr s') \<and>
           transport s' = (transport s)\<lparr>mux_curpos := 0, mux_nextpos := mux_ticlength (user s),
             mux_curtic := 0, mux_phase := MUX_FIRST,
             song_calls := song_calls (user s) @ [Song_startcb],
             phases := phases (user s) @ [MUX_FIRST]\<rparr>"
    by (simp only: t1 e)
qed

lemma mux_timercb_play:
  assumes ok: "callbacks_ok call" and ic: "internal_clock s"
    and ph: "mux_phase (user s) = MUX_FIRST \<or> mux_phase (user s) = MUX_NEXT"
    and np: "mux_nextpos (user s) = mux_ticlength (user s)"
    and d: "unat d < 2 ^ 32"
    and no: "unat (mux_curpos (user s)) + unat d < 2 ^ 64"
  shows "\<exists>s'. mux_timercb call d s = Some (Inr s') \<and>
           transport s' = (transport s)\<lparr>
             mux_curpos := of_nat ((unat (mux_curpos (user s)) + unat d) mod
                                     unat (mux_ticlength (user s))),
             mux_curtic := mux_curtic (user s) +
               of_nat ((unat (mux_curpos (user s)) + unat d) div unat (mux_ticlength (user s))),
             mux_phase :=
               (if (unat (mux_curpos (user s)) + unat d) div unat (mux_ticlength (user s)) = 0
                then mux_phase (user s) else MUX_NEXT),
             song_calls := song_calls (user s) @
               replicate ((unat (mux_curpos (user s)) + unat d) div
                            unat (mux_ticlength (user s))) Song_movecb,
             phases := phases (user s) @
               (if mux_phase (user s) = MUX_FIRST \<and>
                   0 < (unat (mux_curpos (user s)) + unat d) div unat (mux_ticlength (user s))
                then [MUX_NEXT] else [])\<rparr>"
proof (rule mux_timercb_step [OF ok])
  fix s1 assume t1: "transport s1 = transport s"
  note e = transport_eqD [OF t1]
  have p: "internal_clock s1"
    "mux_phase (user s1) = MUX_FIRST \<or> mux_phase (user s1) = MUX_NEXT"
    "mux_nextpos (user s1) = mux_ticlength (user s1)"
    "unat d < 2 ^ 32"
    "unat (mux_curpos (user s1)) + unat d < 2 ^ 64"
    using ic ph np d no by (simp_all only: e internal_clock_transport [OF t1])
  from timercb_ticks_play [OF p]
  show "\<exists>s'. timercb_ticks d s1 = Some (Inr s') \<and>
           transport s' = (transport s)\<lparr>
             mux_curpos := of_nat ((unat (mux_curpos (user s)) + unat d) mod
                                     unat (mux_ticlength (user s))),
             mux_curtic := mux_curtic (user s) +
               of_nat ((unat (mux_curpos (user s)) + unat d) div unat (mux_ticlength (user s))),
             mux_phase :=
               (if (unat (mux_curpos (user s)) + unat d) div unat (mux_ticlength (user s)) = 0
                then mux_phase (user s) else MUX_NEXT),
             song_calls := song_calls (user s) @
               replicate ((unat (mux_curpos (user s)) + unat d) div
                            unat (mux_ticlength (user s))) Song_movecb,
             phases := phases (user s) @
               (if mux_phase (user s) = MUX_FIRST \<and>
                   0 < (unat (mux_curpos (user s)) + unat d) div unat (mux_ticlength (user s))
                then [MUX_NEXT] else [])\<rparr>"
    by (simp only: t1 e)
qed

lemma transport_eqD2:
  assumes "transport a = T"
  shows "mididev_clksrc (user a) = mididev_clksrc T"
    and "mididev_mtcsrc (user a) = mididev_mtcsrc T"
    and "mux_ticrate (user a) = mux_ticrate T"
    and "mux_ticlength (user a) = mux_ticlength T"
    and "mux_curpos (user a) = mux_curpos T"
    and "mux_nextpos (user a) = mux_nextpos T"
    and "mux_curtic (user a) = mux_curtic T"
    and "mux_phase (user a) = mux_phase T"
    and "mux_manualstart (user a) = mux_manualstart T"
    and "song_calls (user a) = song_calls T"
    and "phases (user a) = phases T"
  using arg_cong [OF assms, of mididev_clksrc] arg_cong [OF assms, of mididev_mtcsrc]
    arg_cong [OF assms, of mux_ticrate] arg_cong [OF assms, of mux_ticlength]
    arg_cong [OF assms, of mux_curpos] arg_cong [OF assms, of mux_nextpos]
    arg_cong [OF assms, of mux_curtic] arg_cong [OF assms, of mux_phase]
    arg_cong [OF assms, of mux_manualstart] arg_cong [OF assms, of song_calls]
    arg_cong [OF assms, of phases]
  by simp_all

lemma elapsed_simps:
  "elapsed [] = 0" "elapsed (d # ds) = unat d + elapsed ds"
  by (simp_all add: elapsed_def)

text \<open>
  While the phase is \<open>START\<close> and the accumulated delta has not reached
  \<^verbatim>\<open>mux_nextpos\<close>, the timer callback only adds the delta to \<^verbatim>\<open>mux_curpos\<close>.
\<close>

lemma mux_timer_run_wait:
  assumes ok: "callbacks_ok call"
  shows "internal_clock s \<Longrightarrow> mux_phase (user s) = MUX_START \<Longrightarrow>
         unat (mux_curpos (user s)) + elapsed ds < unat (mux_nextpos (user s)) \<Longrightarrow>
         \<exists>s'. mux_timer_run call ds s = Some (Inr s') \<and>
           transport s' = (transport s)\<lparr>mux_curpos := mux_curpos (user s) + of_nat (elapsed ds)\<rparr>"
proof (induction ds arbitrary: s)
  case Nil
  then show ?case
    by (simp add: elapsed_simps transport_def)
next
  case (Cons d ds)
  have lt: "unat (mux_curpos (user s)) + unat d < unat (mux_nextpos (user s))"
    using Cons.prems(3) by (simp add: elapsed_simps)
  from mux_timercb_wait [OF ok Cons.prems(1,2) lt] obtain s1 where
    s1: "mux_timercb call d s = Some (Inr s1)" and
    t1: "transport s1 = (transport s)\<lparr>mux_curpos := mux_curpos (user s) + d\<rparr>"
    by (elim exE conjE)
  note f = transport_eqD2 [OF t1]
  have nw: "unat (mux_curpos (user s)) + unat d < 2 ^ 64"
    using lt unsigned_less [of "mux_nextpos (user s)", where 'a = nat] by simp
  have c1: "unat (mux_curpos (user s1)) = unat (mux_curpos (user s)) + unat d"
    using unat_add_no_wrap [OF nw] by (simp add: f)
  have ic1: "internal_clock s1"
    using Cons.prems(1) by (simp add: internal_clock_def f)
  have ph1: "mux_phase (user s1) = MUX_START"
    using Cons.prems(2) by (simp add: f)
  have lt1: "unat (mux_curpos (user s1)) + elapsed ds < unat (mux_nextpos (user s1))"
    unfolding c1 using Cons.prems(3) by (simp add: f elapsed_simps)
  from Cons.IH [OF ic1 ph1 lt1] obtain s' where
    r: "mux_timer_run call ds s1 = Some (Inr s')" and
    t': "transport s' = (transport s1)\<lparr>mux_curpos := mux_curpos (user s1) + of_nat (elapsed ds)\<rparr>"
    by (elim exE conjE)
  have "mux_timer_run call (d # ds) s = Some (Inr s')"
    by (simp add: s1 r)
  moreover have "transport s' =
      (transport s)\<lparr>mux_curpos := mux_curpos (user s) + of_nat (elapsed (d # ds))\<rparr>"
    by (simp add: t' t1 f elapsed_simps add.assoc)
  ultimately show ?case
    by (intro exI [of _ s'] conjI)
qed

lemma div_carry:
  fixes a b t :: nat
  shows "a div t + (a mod t + b) div t = (a + b) div t"
proof (cases "t = 0")
  case True
  then show ?thesis by simp
next
  case False
  have "(a + b) div t = (a mod t + b + a div t * t) div t"
    by (simp add: algebra_simps)
  also have "\<dots> = a div t + (a mod t + b) div t"
    by (rule div_mult_self1 [OF False])
  finally show ?thesis by simp
qed

text \<open>
  While playing, the timer callbacks fire one tick for each whole tick length of
  accumulated delta and carry the rest in \<^verbatim>\<open>mux_curpos\<close>.
\<close>

lemma mux_timer_run_play:
  assumes ok: "callbacks_ok call"
    and ds: "\<forall>d\<in>set ds. unat d < 2 ^ 32"
  shows "internal_clock s \<Longrightarrow>
         mux_phase (user s) = MUX_FIRST \<or> mux_phase (user s) = MUX_NEXT \<Longrightarrow>
         mux_nextpos (user s) = mux_ticlength (user s) \<Longrightarrow>
         unat (mux_curpos (user s)) < unat (mux_ticlength (user s)) \<Longrightarrow>
         unat (mux_ticlength (user s)) < 2 ^ 63 \<Longrightarrow>
         \<exists>s'. mux_timer_run call ds s = Some (Inr s') \<and>
           transport s' = (transport s)\<lparr>
             mux_curpos := of_nat ((unat (mux_curpos (user s)) + elapsed ds) mod
                                     unat (mux_ticlength (user s))),
             mux_curtic := mux_curtic (user s) +
               of_nat ((unat (mux_curpos (user s)) + elapsed ds) div
                         unat (mux_ticlength (user s))),
             mux_phase :=
               (if (unat (mux_curpos (user s)) + elapsed ds) div
                     unat (mux_ticlength (user s)) = 0
                then mux_phase (user s) else MUX_NEXT),
             song_calls := song_calls (user s) @
               replicate ((unat (mux_curpos (user s)) + elapsed ds) div
                            unat (mux_ticlength (user s))) Song_movecb,
             phases := phases (user s) @
               (if mux_phase (user s) = MUX_FIRST \<and>
                   0 < (unat (mux_curpos (user s)) + elapsed ds) div
                         unat (mux_ticlength (user s))
                then [MUX_NEXT] else [])\<rparr>"
  using ds
proof (induction ds arbitrary: s)
  case Nil
  then show ?case
    by (simp add: elapsed_simps transport_def)
next
  case (Cons d ds)
  define c where "c = unat (mux_curpos (user s))"
  define t where "t = unat (mux_ticlength (user s))"
  define k1 where "k1 = (c + unat d) div t"
  define k2 where "k2 = ((c + unat d) mod t + elapsed ds) div t"
  have d32: "unat d < 2 ^ 32" and ds32: "\<forall>d\<in>set ds. unat d < 2 ^ 32"
    using Cons.prems(6) by simp_all
  have tpos: "0 < t" and ct: "c < t" and t63: "t < 2 ^ 63"
    using Cons.prems(4,5) by (simp_all add: c_def t_def)
  have nw: "unat (mux_curpos (user s)) + unat d < 2 ^ 64"
    using ct t63 d32 by (simp add: c_def)
  from mux_timercb_play [OF ok Cons.prems(1,2,3) d32 nw] obtain s1 where
    s1: "mux_timercb call d s = Some (Inr s1)" and
    t1: "transport s1 = (transport s)\<lparr>
             mux_curpos := of_nat ((c + unat d) mod t),
             mux_curtic := mux_curtic (user s) + of_nat k1,
             mux_phase := (if k1 = 0 then mux_phase (user s) else MUX_NEXT),
             song_calls := song_calls (user s) @ replicate k1 Song_movecb,
             phases := phases (user s) @
               (if mux_phase (user s) = MUX_FIRST \<and> 0 < k1 then [MUX_NEXT] else [])\<rparr>"
    unfolding c_def t_def k1_def by (elim exE conjE)
  note f = transport_eqD2 [OF t1]
  have m: "(c + unat d) mod t < t"
    using tpos by simp
  then have m64: "(c + unat d) mod t < 2 ^ 64"
    using t63 by simp
  have c1: "unat (mux_curpos (user s1)) = (c + unat d) mod t"
    using m64 by (simp add: f unsigned_of_nat take_bit_nat_eq_self)
  have tl1: "unat (mux_ticlength (user s1)) = t"
    by (simp add: f t_def)
  have ic1: "internal_clock s1"
    using Cons.prems(1) by (simp add: internal_clock_def f)
  have ph1: "mux_phase (user s1) = MUX_FIRST \<or> mux_phase (user s1) = MUX_NEXT"
    using Cons.prems(2) by (simp add: f)
  have np1: "mux_nextpos (user s1) = mux_ticlength (user s1)"
    using Cons.prems(3) by (simp add: f)
  have lt1: "unat (mux_curpos (user s1)) < unat (mux_ticlength (user s1))"
    using m by (simp add: c1 tl1)
  have b1: "unat (mux_ticlength (user s1)) < 2 ^ 63"
    using t63 by (simp add: tl1)
  from Cons.IH [OF ic1 ph1 np1 lt1 b1 ds32] obtain s' where
    r: "mux_timer_run call ds s1 = Some (Inr s')" and
    t': "transport s' = (transport s1)\<lparr>
             mux_curpos := of_nat (((c + unat d) mod t + elapsed ds) mod t),
             mux_curtic := mux_curtic (user s1) + of_nat k2,
             mux_phase := (if k2 = 0 then mux_phase (user s1) else MUX_NEXT),
             song_calls := song_calls (user s1) @ replicate k2 Song_movecb,
             phases := phases (user s1) @
               (if mux_phase (user s1) = MUX_FIRST \<and> 0 < k2 then [MUX_NEXT] else [])\<rparr>"
    unfolding c1 tl1 k2_def by (elim exE conjE)
  have k: "(c + elapsed (d # ds)) div t = k1 + k2"
    unfolding k1_def k2_def elapsed_simps
    using div_carry [of "c + unat d" t "elapsed ds"] by (simp add: add.assoc)
  have md: "(c + elapsed (d # ds)) mod t = ((c + unat d) mod t + elapsed ds) mod t"
    unfolding elapsed_simps by (simp add: mod_add_left_eq add.assoc)
  have ne: "MUX_NEXT \<noteq> MUX_FIRST"
    by (simp add: mux_phase_defs)
  have "mux_timer_run call (d # ds) s = Some (Inr s')"
    by (simp add: s1 r)
  moreover have "transport s' = (transport s)\<lparr>
             mux_curpos := of_nat ((c + elapsed (d # ds)) mod t),
             mux_curtic := mux_curtic (user s) + of_nat ((c + elapsed (d # ds)) div t),
             mux_phase :=
               (if (c + elapsed (d # ds)) div t = 0 then mux_phase (user s) else MUX_NEXT),
             song_calls := song_calls (user s) @
               replicate ((c + elapsed (d # ds)) div t) Song_movecb,
             phases := phases (user s) @
               (if mux_phase (user s) = MUX_FIRST \<and> 0 < (c + elapsed (d # ds)) div t
                then [MUX_NEXT] else [])\<rparr>"
    unfolding k md t' f t1
    by (simp add: replicate_add ne add.assoc)
  ultimately show ?case
    unfolding c_def t_def by (intro exI [of _ s'] conjI)
qed

text \<open>Callbacks that do nothing are such callbacks.\<close>

lemma timo_update_loop_no_call:
  "\<exists>s'. timo_update_loop no_call s = Some s'"
proof (induction "timo_queue s" arbitrary: s)
  case Nil
  then show ?case
    by (subst timo_update_loop.simps) (simp add: Nil [symmetric])
next
  case (Cons to rest)
  let ?s1 = "s\<lparr>timo_queue := rest, timos := (timos s)(to := (timos s to)\<lparr>set_flag := 0\<rparr>)\<rparr>"
  have "rest = timo_queue ?s1"
    by simp
  from Cons.hyps(1) [OF this] obtain s' where "timo_update_loop no_call ?s1 = Some s'"
    by (elim exE)
  then show ?case
    by (subst timo_update_loop.simps) (simp add: Cons.hyps(2) [symmetric] no_call_def)
qed

lemma callbacks_ok_no_call: "callbacks_ok no_call"
proof -
  have "timo_update no_call w d \<noteq> None" for w :: world and d
    using timo_update_loop_no_call [of "w\<lparr>timo_abstime := timo_abstime w + d\<rparr>"]
    by (simp add: timo_update_def)
  then show ?thesis
    by (simp add: callbacks_ok_def no_call_def)
qed

text \<open>
  A start request on the internal timer: the phase passes through \<open>STARTWAIT\<close> to
  \<open>START\<close>, no callback of the song is called, and the first tick is due after
  \<^verbatim>\<open>MUX_START_DELAY\<close>.
\<close>

lemma mux_startreq_internal:
  assumes ic: "internal_clock s" and stop: "mux_phase (user s) = MUX_STOP"
  shows "\<exists>s'. mux_startreq gotocb ms s = Inr s' \<and>
           transport s' = (transport s)\<lparr>mux_curpos := 0, mux_nextpos := MUX_START_DELAY,
             mux_phase := MUX_START, mux_reqphase := MUX_STARTWAIT, mux_manualstart := ms,
             phases := phases (user s) @ [MUX_STARTWAIT, MUX_START]\<rparr>"
proof -
  have c: "\<not> MUX_START \<le> MUX_STARTWAIT" "MUX_STARTWAIT \<noteq> MUX_STOP"
    by (simp_all add: mux_phase_defs)
  show ?thesis
    using ic stop
    by (simp add: mux_startreq_def mux_mtcstart_def mux_startcb_def Let_def mux_state_defs c
        internal_clock_def transport_def)
qed

text \<open>
  In the phase \<open>START\<close> with \<^verbatim>\<open>mux_manualstart\<close> set, the timer callback fires no
  tick: it changes \<^verbatim>\<open>mux_curpos\<close> and \<^verbatim>\<open>mux_nextpos\<close> only.
\<close>

lemma timercb_ticks_manual:
  assumes ic: "internal_clock s" and ph: "mux_phase (user s) = MUX_START"
    and ms: "mux_manualstart (user s) \<noteq> 0"
  shows "\<exists>s'. timercb_ticks d s = Some (Inr s') \<and>
           transport s' = (transport s)\<lparr>mux_curpos := mux_curpos (user s'),
                                        mux_nextpos := mux_nextpos (user s')\<rparr>"
proof (cases "mux_nextpos (user s) \<le> mux_curpos (user s) + d")
  case False
  then have "timercb_ticks d s =
               Some (Inr (mux_upd (\<lambda>m. m\<lparr>mux_curpos := mux_curpos m + d\<rparr>) s))"
    using ic ph
    by (simp add: timercb_ticks_def internal_clock_def Let_def mux_upd_def mux_phase_defs)
  moreover have "transport (mux_upd (\<lambda>m. m\<lparr>mux_curpos := mux_curpos m + d\<rparr>) s) =
      (transport s)\<lparr>mux_curpos := mux_curpos (user (mux_upd (\<lambda>m. m\<lparr>mux_curpos := mux_curpos m + d\<rparr>) s)),
                    mux_nextpos := mux_nextpos (user (mux_upd (\<lambda>m. m\<lparr>mux_curpos := mux_curpos m + d\<rparr>) s))\<rparr>"
    by (simp add: transport_def mux_upd_def)
  ultimately show ?thesis
    by (intro exI [of _ "mux_upd (\<lambda>m. m\<lparr>mux_curpos := mux_curpos m + d\<rparr>) s"] conjI)
next
  case True
  let ?s1 = "mux_upd (\<lambda>m. m\<lparr>mux_curpos := mux_curpos m + d\<rparr>) s"
  define s2 where "s2 = mux_upd (\<lambda>m. m\<lparr>mux_curpos := 0, mux_nextpos := 0\<rparr>) ?s1"
  define s4 where "s4 = s\<lparr>user := (user s)\<lparr>mux_curpos := 0,
                                             mux_nextpos := mux_ticlength (user s)\<rparr>\<rparr>"
  have tl: "mux_ticlength (user s) \<noteq> 0"
    using ic by (simp add: internal_clock_def)
  have stop: "mtctick_loop s4 = Some s4"
    using tl by (subst mtctick_loop.simps) (simp add: s4_def)
  have "mux_mtctick 0 s2 = mtctick_loop s4"
    unfolding mux_mtctick_def
    using ms ph by (subst mtctick_loop.simps) (simp add: s2_def s4_def mux_upd_def Let_def)
  then have "mux_mtctick 0 s2 = Some s4"
    by (simp add: stop)
  then have "timercb_ticks d s = Some (Inr s4)"
    using ic ph True
    by (simp add: timercb_ticks_def internal_clock_def Let_def mux_phase_defs s2_def mux_upd_def)
  moreover have "transport s4 = (transport s)\<lparr>mux_curpos := mux_curpos (user s4),
                                               mux_nextpos := mux_nextpos (user s4)\<rparr>"
    by (simp add: transport_def s4_def)
  ultimately show ?thesis
    by (intro exI [of _ s4] conjI)
qed

lemma mux_timercb_manual:
  assumes ok: "callbacks_ok call" and ic: "internal_clock s"
    and ph: "mux_phase (user s) = MUX_START"
    and ms: "mux_manualstart (user s) \<noteq> 0"
  shows "\<exists>s'. mux_timercb call d s = Some (Inr s') \<and>
           transport s' = (transport s)\<lparr>mux_curpos := mux_curpos (user s'),
                                        mux_nextpos := mux_nextpos (user s')\<rparr>"
proof -
  from ok have cb: "\<forall>c a w. transport (call c a w) = transport w"
    and tm: "\<forall>w d. timo_update call w d \<noteq> None"
    by (simp_all add: callbacks_ok_def)
  from timercb_timeouts_transport [OF cb tm, of d s] obtain s1 where
    s1: "timercb_timeouts call d s = Some s1" and t1: "transport s1 = transport s"
    by (elim exE conjE)
  note e = transport_eqD [OF t1]
  have p1: "internal_clock s1"
    using ic by (simp only: internal_clock_transport [OF t1])
  have p2: "mux_phase (user s1) = MUX_START"
    using ph by (simp only: e)
  have p3: "mux_manualstart (user s1) \<noteq> 0"
    unfolding e(9) by (rule ms)
  from timercb_ticks_manual [OF p1 p2 p3, of d] obtain s' where
    r: "timercb_ticks d s1 = Some (Inr s')" and
    t': "transport s' = (transport s1)\<lparr>mux_curpos := mux_curpos (user s'),
                                        mux_nextpos := mux_nextpos (user s')\<rparr>"
    by (elim exE conjE)
  have "mux_timercb call d s = Some (Inr s')"
    by (simp add: mux_timercb_def s1 r)
  moreover have "transport s' = (transport s)\<lparr>mux_curpos := mux_curpos (user s'),
                                               mux_nextpos := mux_nextpos (user s')\<rparr>"
    using t' by (simp only: t1)
  ultimately show ?thesis
    by (intro exI [of _ s'] conjI)
qed

lemma mux_timer_run_manual:
  assumes ok: "callbacks_ok call"
  shows "internal_clock s \<Longrightarrow> mux_phase (user s) = MUX_START \<Longrightarrow>
         mux_manualstart (user s) \<noteq> 0 \<Longrightarrow>
         \<exists>s'. mux_timer_run call ds s = Some (Inr s') \<and>
           transport s' = (transport s)\<lparr>mux_curpos := mux_curpos (user s'),
                                        mux_nextpos := mux_nextpos (user s')\<rparr>"
proof (induction ds arbitrary: s)
  case Nil
  then show ?case
    by (simp add: transport_def)
next
  case (Cons d ds)
  from mux_timercb_manual [OF ok Cons.prems, of d] obtain s1 where
    s1: "mux_timercb call d s = Some (Inr s1)" and
    t1: "transport s1 = (transport s)\<lparr>mux_curpos := mux_curpos (user s1),
                                        mux_nextpos := mux_nextpos (user s1)\<rparr>"
    by (elim exE conjE)
  note f = transport_eqD2 [OF t1]
  have ic1: "internal_clock s1"
    using Cons.prems(1) by (simp add: internal_clock_def f(1-4))
  have ph1: "mux_phase (user s1) = MUX_START"
    using Cons.prems(2) by (simp add: f(8))
  have ms1: "mux_manualstart (user s1) \<noteq> 0"
    using Cons.prems(3) by (simp add: f(9))
  from Cons.IH [OF ic1 ph1 ms1] obtain s' where
    r: "mux_timer_run call ds s1 = Some (Inr s')" and
    t': "transport s' = (transport s1)\<lparr>mux_curpos := mux_curpos (user s'),
                                         mux_nextpos := mux_nextpos (user s')\<rparr>"
    by (elim exE conjE)
  have "mux_timer_run call (d # ds) s = Some (Inr s')"
    by (simp add: s1 r)
  moreover have "transport s' = (transport s)\<lparr>mux_curpos := mux_curpos (user s'),
                                               mux_nextpos := mux_nextpos (user s')\<rparr>"
    by (subst t', subst t1) simp
  ultimately show ?case
    by (intro exI [of _ s'] conjI)
qed

subsection \<open>The first tick and the ticks after it\<close>

text \<open>
  Claim C1, as amended.  The transport is stopped, has no external clock source and no
  MTC source, and any devices are registered; the callbacks of the timeouts leave the
  transport alone.  A start request returns with the phase gone through \<open>STARTWAIT\<close>
  to \<open>START\<close> and no callback of the song called.

  After a start request with \<^verbatim>\<open>manualstart = 0\<close>: while the deltas of the timer
  callbacks add up to less than \<^verbatim>\<open>MUX_START_DELAY\<close> the phase stays \<open>START\<close> and no
  tick fires.  The first timer callback at which the accumulated delta reaches
  \<^verbatim>\<open>MUX_START_DELAY\<close> (and is less than \<open>2\<^sup>6\<^sup>4\<close>) fires the first tick:
  \<^verbatim>\<open>song_startcb\<close> is called, the phase is \<open>FIRST\<close>, and the position restarts
  from 0, what the accumulated delta exceeds the delay by being dropped.  After
  further timer callbacks with the deltas \<open>ds\<close>, each less than \<open>2\<^sup>3\<^sup>2\<close>, and with a
  tick length less than \<open>2\<^sup>6\<^sup>3\<close>, \<^verbatim>\<open>song_movecb\<close> has been called once for each
  whole \<^verbatim>\<open>mux_ticlength\<close> in the sum of \<open>ds\<close>, and the rest is kept in
  \<^verbatim>\<open>mux_curpos\<close>.

  After a start request with \<^verbatim>\<open>manualstart\<close> not 0: whatever the deltas \<open>xs\<close> of
  the timer callbacks are, no tick fires; the phase stays \<open>START\<close> and no callback of
  the song is called.
\<close>

theorem mux_internal_ticks:
  assumes ok: "callbacks_ok call"
    and ic: "internal_clock s"
    and stop: "mux_phase (user s) = MUX_STOP"
  shows "\<exists>s1.
    mux_startreq gotocb ms s = Inr s1 \<and>
    phases (user s1) = phases (user s) @ [MUX_STARTWAIT, MUX_START] \<and>
    song_calls (user s1) = song_calls (user s) \<and>
    (ms = 0 \<and> unat (mux_ticlength (user s)) < 2 ^ 63 \<and>
     elapsed ws < unat MUX_START_DELAY \<and>
     unat MUX_START_DELAY \<le> elapsed ws + unat d \<and> elapsed ws + unat d < 2 ^ 64 \<and>
     (\<forall>x\<in>set ds. unat x < 2 ^ 32) \<longrightarrow>
       (\<exists>s2 s3 s4.
          mux_timer_run call ws s1 = Some (Inr s2) \<and>
          mux_phase (user s2) = MUX_START \<and>
          song_calls (user s2) = song_calls (user s) \<and>
          mux_timercb call d s2 = Some (Inr s3) \<and>
          mux_phase (user s3) = MUX_FIRST \<and>
          mux_curtic (user s3) = 0 \<and>
          mux_curpos (user s3) = 0 \<and>
          song_calls (user s3) = song_calls (user s) @ [Song_startcb] \<and>
          mux_timer_run call ds s3 = Some (Inr s4) \<and>
          song_calls (user s4) =
            song_calls (user s) @ Song_startcb #
              replicate (elapsed ds div unat (mux_ticlength (user s))) Song_movecb \<and>
          mux_curtic (user s4) = of_nat (elapsed ds div unat (mux_ticlength (user s))) \<and>
          unat (mux_curpos (user s4)) = elapsed ds mod unat (mux_ticlength (user s)) \<and>
          phases (user s4) =
            phases (user s) @ [MUX_STARTWAIT, MUX_START, MUX_FIRST] @
              (if 0 < elapsed ds div unat (mux_ticlength (user s)) then [MUX_NEXT] else []))) \<and>
    (ms \<noteq> 0 \<longrightarrow>
       (\<exists>s'. mux_timer_run call xs s1 = Some (Inr s') \<and>
          mux_phase (user s') = MUX_START \<and>
          mux_curtic (user s') = mux_curtic (user s) \<and>
          song_calls (user s') = song_calls (user s) \<and>
          phases (user s') = phases (user s) @ [MUX_STARTWAIT, MUX_START]))"
proof -
  define t where "t = unat (mux_ticlength (user s))"
  have tpos: "0 < t"
    using ic by (simp add: internal_clock_def t_def unat_gt_0)
  \<comment> \<open>the start request\<close>
  from mux_startreq_internal [OF ic stop, of gotocb ms] obtain s1 where
    r1: "mux_startreq gotocb ms s = Inr s1" and
    t1: "transport s1 = (transport s)\<lparr>mux_curpos := 0, mux_nextpos := MUX_START_DELAY,
             mux_phase := MUX_START, mux_reqphase := MUX_STARTWAIT, mux_manualstart := ms,
             phases := phases (user s) @ [MUX_STARTWAIT, MUX_START]\<rparr>"
    by (elim exE conjE)
  note f1 = transport_eqD2 [OF t1]
  have ic1: "internal_clock s1"
    using ic by (simp add: internal_clock_def f1)
  have ph1: "mux_phase (user s1) = MUX_START"
    by (simp add: f1)
  have q1: "phases (user s1) = phases (user s) @ [MUX_STARTWAIT, MUX_START]"
    by (simp add: f1)
  have q2: "song_calls (user s1) = song_calls (user s)"
    by (simp add: f1)
  have auto_start: "\<exists>s2 s3 s4.
          mux_timer_run call ws s1 = Some (Inr s2) \<and>
          mux_phase (user s2) = MUX_START \<and>
          song_calls (user s2) = song_calls (user s) \<and>
          mux_timercb call d s2 = Some (Inr s3) \<and>
          mux_phase (user s3) = MUX_FIRST \<and>
          mux_curtic (user s3) = 0 \<and>
          mux_curpos (user s3) = 0 \<and>
          song_calls (user s3) = song_calls (user s) @ [Song_startcb] \<and>
          mux_timer_run call ds s3 = Some (Inr s4) \<and>
          song_calls (user s4) =
            song_calls (user s) @ Song_startcb # replicate (elapsed ds div t) Song_movecb \<and>
          mux_curtic (user s4) = of_nat (elapsed ds div t) \<and>
          unat (mux_curpos (user s4)) = elapsed ds mod t \<and>
          phases (user s4) =
            phases (user s) @ [MUX_STARTWAIT, MUX_START, MUX_FIRST] @
              (if 0 < elapsed ds div t then [MUX_NEXT] else [])"
    if ms: "ms = 0" and t63: "t < 2 ^ 63" and wait: "elapsed ws < unat MUX_START_DELAY"
      and reach: "unat MUX_START_DELAY \<le> elapsed ws + unat d"
      and nowrap: "elapsed ws + unat d < 2 ^ 64"
      and ds32: "\<forall>x\<in>set ds. unat x < 2 ^ 32"
  proof -
    have lt1: "unat (mux_curpos (user s1)) + elapsed ws < unat (mux_nextpos (user s1))"
      using wait by (simp add: f1)
    \<comment> \<open>before the delay has passed\<close>
    from mux_timer_run_wait [OF ok ic1 ph1 lt1] obtain s2 where
      r2: "mux_timer_run call ws s1 = Some (Inr s2)" and
      t2: "transport s2 =
             (transport s1)\<lparr>mux_curpos := mux_curpos (user s1) + of_nat (elapsed ws)\<rparr>"
      by (elim exE conjE)
    note f2 = transport_eqD2 [OF t2]
    have e64: "elapsed ws < 2 ^ 64"
      using nowrap by linarith
    have c2: "unat (mux_curpos (user s2)) = elapsed ws"
      using e64 by (simp add: f2 f1 unsigned_of_nat take_bit_nat_eq_self)
    have ic2: "internal_clock s2"
      using ic1 by (simp add: internal_clock_def f2)
    have ph2: "mux_phase (user s2) = MUX_START"
      by (simp add: f2 f1)
    have ms2: "mux_manualstart (user s2) = 0"
      by (simp add: f2 f1 ms)
    have ge2: "unat (mux_nextpos (user s2)) \<le> unat (mux_curpos (user s2)) + unat d"
      unfolding c2 using reach by (simp add: f2 f1)
    have no2: "unat (mux_curpos (user s2)) + unat d < 2 ^ 64"
      unfolding c2 by (rule nowrap)
    \<comment> \<open>the first tick\<close>
    from mux_timercb_fire [OF ok ic2 ph2 ms2 ge2 no2] obtain s3 where
      r3: "mux_timercb call d s2 = Some (Inr s3)" and
      t3: "transport s3 =
             (transport s2)\<lparr>mux_curpos := 0, mux_nextpos := mux_ticlength (user s2),
               mux_curtic := 0, mux_phase := MUX_FIRST,
               song_calls := song_calls (user s2) @ [Song_startcb],
               phases := phases (user s2) @ [MUX_FIRST]\<rparr>"
      by (elim exE conjE)
    note f3 = transport_eqD2 [OF t3]
    have tl3: "mux_ticlength (user s3) = mux_ticlength (user s)"
      by (simp add: f3 f2 f1)
    have ic3: "internal_clock s3"
      using ic2 by (simp add: internal_clock_def f3)
    have ph3: "mux_phase (user s3) = MUX_FIRST"
      by (simp add: f3)
    have ph3': "mux_phase (user s3) = MUX_FIRST \<or> mux_phase (user s3) = MUX_NEXT"
      by (simp add: ph3)
    have np3: "mux_nextpos (user s3) = mux_ticlength (user s3)"
      by (simp add: f3)
    have c3: "mux_curpos (user s3) = 0"
      by (simp add: f3)
    have lt3: "unat (mux_curpos (user s3)) < unat (mux_ticlength (user s3))"
      using tpos by (simp add: c3 tl3 t_def)
    have b3: "unat (mux_ticlength (user s3)) < 2 ^ 63"
      using t63 by (simp add: tl3 t_def)
    \<comment> \<open>the ticks after it\<close>
    from mux_timer_run_play [OF ok ds32 ic3 ph3' np3 lt3 b3] obtain s4 where
      r4: "mux_timer_run call ds s3 = Some (Inr s4)" and
      t4: "transport s4 = (transport s3)\<lparr>
               mux_curpos := of_nat (elapsed ds mod t),
               mux_curtic := mux_curtic (user s3) + of_nat (elapsed ds div t),
               mux_phase := (if elapsed ds div t = 0 then mux_phase (user s3) else MUX_NEXT),
               song_calls := song_calls (user s3) @ replicate (elapsed ds div t) Song_movecb,
               phases := phases (user s3) @
                 (if mux_phase (user s3) = MUX_FIRST \<and> 0 < elapsed ds div t
                  then [MUX_NEXT] else [])\<rparr>"
      unfolding c3 tl3 t_def by (simp only: unsigned_0 add_0) (elim exE conjE)
    note f4 = transport_eqD2 [OF t4]
    have m64: "elapsed ds mod t < 2 ^ 64"
      using tpos t63 mod_less_divisor [OF tpos, of "elapsed ds"] by simp
    have q3: "song_calls (user s2) = song_calls (user s)"
      by (simp add: f2 f1)
    have q4: "mux_curtic (user s3) = 0"
      by (simp add: f3)
    have q5: "song_calls (user s3) = song_calls (user s) @ [Song_startcb]"
      by (simp add: f3 f2 f1)
    have q6: "song_calls (user s4) =
        song_calls (user s) @ Song_startcb # replicate (elapsed ds div t) Song_movecb"
      by (simp add: f4 q5)
    have q7: "mux_curtic (user s4) = of_nat (elapsed ds div t)"
      by (simp add: f4 q4)
    have q8: "unat (mux_curpos (user s4)) = elapsed ds mod t"
      using m64 by (simp add: f4 unsigned_of_nat take_bit_nat_eq_self)
    have q9: "phases (user s4) =
        phases (user s) @ [MUX_STARTWAIT, MUX_START, MUX_FIRST] @
          (if 0 < elapsed ds div t then [MUX_NEXT] else [])"
      by (simp add: f4 f3 f2 f1)
    show ?thesis
      using r2 ph2 q3 r3 ph3 q4 c3 q5 r4 q6 q7 q8 q9
      by (intro exI [of _ s2] exI [of _ s3] exI [of _ s4] conjI)
  qed
  have manual_start: "\<exists>s'. mux_timer_run call xs s1 = Some (Inr s') \<and>
          mux_phase (user s') = MUX_START \<and>
          mux_curtic (user s') = mux_curtic (user s) \<and>
          song_calls (user s') = song_calls (user s) \<and>
          phases (user s') = phases (user s) @ [MUX_STARTWAIT, MUX_START]"
    if ms: "ms \<noteq> 0"
  proof -
    have ms1: "mux_manualstart (user s1) \<noteq> 0"
      using ms by (simp add: f1)
    from mux_timer_run_manual [OF ok ic1 ph1 ms1, of xs] obtain s' where
      r: "mux_timer_run call xs s1 = Some (Inr s')" and
      t': "transport s' = (transport s1)\<lparr>mux_curpos := mux_curpos (user s'),
                                           mux_nextpos := mux_nextpos (user s')\<rparr>"
      by (elim exE conjE)
    note f = transport_eqD2 [OF t']
    have "mux_phase (user s') = MUX_START"
      "mux_curtic (user s') = mux_curtic (user s)"
      "song_calls (user s') = song_calls (user s)"
      "phases (user s') = phases (user s) @ [MUX_STARTWAIT, MUX_START]"
      by (simp_all add: f(7,8,10,11) f1(7,8,10,11))
    with r show ?thesis
      by (intro exI [of _ s'] conjI)
  qed
  have a: "ms = 0 \<and> t < 2 ^ 63 \<and>
     elapsed ws < unat MUX_START_DELAY \<and>
     unat MUX_START_DELAY \<le> elapsed ws + unat d \<and> elapsed ws + unat d < 2 ^ 64 \<and>
     (\<forall>x\<in>set ds. unat x < 2 ^ 32) \<longrightarrow>
       (\<exists>s2 s3 s4.
          mux_timer_run call ws s1 = Some (Inr s2) \<and>
          mux_phase (user s2) = MUX_START \<and>
          song_calls (user s2) = song_calls (user s) \<and>
          mux_timercb call d s2 = Some (Inr s3) \<and>
          mux_phase (user s3) = MUX_FIRST \<and>
          mux_curtic (user s3) = 0 \<and>
          mux_curpos (user s3) = 0 \<and>
          song_calls (user s3) = song_calls (user s) @ [Song_startcb] \<and>
          mux_timer_run call ds s3 = Some (Inr s4) \<and>
          song_calls (user s4) =
            song_calls (user s) @ Song_startcb # replicate (elapsed ds div t) Song_movecb \<and>
          mux_curtic (user s4) = of_nat (elapsed ds div t) \<and>
          unat (mux_curpos (user s4)) = elapsed ds mod t \<and>
          phases (user s4) =
            phases (user s) @ [MUX_STARTWAIT, MUX_START, MUX_FIRST] @
              (if 0 < elapsed ds div t then [MUX_NEXT] else []))"
  proof (intro impI, elim conjE)
    assume "ms = 0" "t < 2 ^ 63" "elapsed ws < unat MUX_START_DELAY"
      "unat MUX_START_DELAY \<le> elapsed ws + unat d" "elapsed ws + unat d < 2 ^ 64"
      "\<forall>x\<in>set ds. unat x < 2 ^ 32"
    then show "\<exists>s2 s3 s4.
          mux_timer_run call ws s1 = Some (Inr s2) \<and>
          mux_phase (user s2) = MUX_START \<and>
          song_calls (user s2) = song_calls (user s) \<and>
          mux_timercb call d s2 = Some (Inr s3) \<and>
          mux_phase (user s3) = MUX_FIRST \<and>
          mux_curtic (user s3) = 0 \<and>
          mux_curpos (user s3) = 0 \<and>
          song_calls (user s3) = song_calls (user s) @ [Song_startcb] \<and>
          mux_timer_run call ds s3 = Some (Inr s4) \<and>
          song_calls (user s4) =
            song_calls (user s) @ Song_startcb # replicate (elapsed ds div t) Song_movecb \<and>
          mux_curtic (user s4) = of_nat (elapsed ds div t) \<and>
          unat (mux_curpos (user s4)) = elapsed ds mod t \<and>
          phases (user s4) =
            phases (user s) @ [MUX_STARTWAIT, MUX_START, MUX_FIRST] @
              (if 0 < elapsed ds div t then [MUX_NEXT] else [])"
      by (rule auto_start)
  qed
  have b: "ms \<noteq> 0 \<longrightarrow>
       (\<exists>s'. mux_timer_run call xs s1 = Some (Inr s') \<and>
          mux_phase (user s') = MUX_START \<and>
          mux_curtic (user s') = mux_curtic (user s) \<and>
          song_calls (user s') = song_calls (user s) \<and>
          phases (user s') = phases (user s) @ [MUX_STARTWAIT, MUX_START])"
    using manual_start by (intro impI)
  show ?thesis
    unfolding t_def [symmetric]
    using r1 q1 q2 a b
    by (intro exI [of _ s1] conjI)
qed

theorem mux_internal_ticks_witness:
  "callbacks_ok no_call \<and>
   internal_clock (mux_open [clock_dev]) \<and>
   mux_phase (user (mux_open [clock_dev])) = MUX_STOP \<and>
   mux_ticlength (user (mux_open [clock_dev])) = 500000 \<and>
   elapsed [5000000] < unat MUX_START_DELAY \<and>
   unat MUX_START_DELAY \<le> elapsed [5000000] + unat (5000000 :: u64) \<and>
   (\<exists>s2 s3 s4.
      phases (user (started 0)) = [MUX_STARTWAIT, MUX_START] \<and>
      mux_timer_run no_call [5000000] (started 0) = Some (Inr s2) \<and>
      mux_phase (user s2) = MUX_START \<and>
      song_calls (user s2) = [] \<and>
      mux_timercb no_call 5000000 s2 = Some (Inr s3) \<and>
      mux_phase (user s3) = MUX_FIRST \<and>
      song_calls (user s3) = [Song_startcb] \<and>
      mux_timer_run no_call [300000, 300000] s3 = Some (Inr s4) \<and>
      song_calls (user s4) = [Song_startcb, Song_movecb] \<and>
      mux_curtic (user s4) = 1 \<and>
      unat (mux_curpos (user s4)) = 100000 \<and>
      phases (user s4) = [MUX_STARTWAIT, MUX_START, MUX_FIRST, MUX_NEXT]) \<and>
   (\<exists>s'. mux_timer_run no_call [8000000, 500000, 500000] (started 1) = Some (Inr s') \<and>
      mux_phase (user s') = MUX_START \<and>
      song_calls (user s') = [] \<and>
      phases (user s') = [MUX_STARTWAIT, MUX_START])"
proof -
  have o: "internal_clock (mux_open [clock_dev])"
    "mux_phase (user (mux_open [clock_dev])) = MUX_STOP"
    "mux_ticlength (user (mux_open [clock_dev])) = 500000"
    "song_calls (user (mux_open [clock_dev])) = []"
    "phases (user (mux_open [clock_dev])) = []"
    by (simp_all add: mux_open_def timo_init_def internal_clock_def DEFAULT_USEC24_def
        DEFAULT_TPU_def)
  have e: "elapsed [5000000] < unat MUX_START_DELAY"
    "unat MUX_START_DELAY \<le> elapsed [5000000] + unat (5000000 :: u64)"
    by (simp_all add: elapsed_def MUX_START_DELAY_def)
  have h: "(0 :: u32) = 0 \<and> unat (500000 :: u64) < 2 ^ 63 \<and>
     elapsed [5000000] < unat MUX_START_DELAY \<and>
     unat MUX_START_DELAY \<le> elapsed [5000000] + unat (5000000 :: u64) \<and>
     elapsed [5000000] + unat (5000000 :: u64) < 2 ^ 64 \<and>
     (\<forall>x\<in>set [300000, 300000 :: u64]. unat x < 2 ^ 32)"
    using e by (simp add: elapsed_def)
  have k: "elapsed [300000, 300000] div unat (500000 :: u64) = 1"
    "elapsed [300000, 300000] mod unat (500000 :: u64) = 100000"
    by (simp_all add: elapsed_def)
  from mux_internal_ticks [OF callbacks_ok_no_call o(1) o(2),
      of no_goto 0 "[5000000]" 5000000 "[300000, 300000]" "[]", unfolded o]
  obtain s1 where
    r1: "mux_startreq no_goto 0 (mux_open [clock_dev]) = Inr s1" and
    p1: "phases (user s1) = [] @ [MUX_STARTWAIT, MUX_START]" and
    a: "(0 :: u32) = 0 \<and> unat (500000 :: u64) < 2 ^ 63 \<and>
     elapsed [5000000] < unat MUX_START_DELAY \<and>
     unat MUX_START_DELAY \<le> elapsed [5000000] + unat (5000000 :: u64) \<and>
     elapsed [5000000] + unat (5000000 :: u64) < 2 ^ 64 \<and>
     (\<forall>x\<in>set [300000, 300000 :: u64]. unat x < 2 ^ 32) \<longrightarrow>
       (\<exists>s2 s3 s4.
          mux_timer_run no_call [5000000] s1 = Some (Inr s2) \<and>
          mux_phase (user s2) = MUX_START \<and>
          song_calls (user s2) = [] \<and>
          mux_timercb no_call 5000000 s2 = Some (Inr s3) \<and>
          mux_phase (user s3) = MUX_FIRST \<and>
          mux_curtic (user s3) = 0 \<and>
          mux_curpos (user s3) = 0 \<and>
          song_calls (user s3) = [] @ [Song_startcb] \<and>
          mux_timer_run no_call [300000, 300000] s3 = Some (Inr s4) \<and>
          song_calls (user s4) =
            [] @ Song_startcb #
              replicate (elapsed [300000, 300000] div unat (500000 :: u64)) Song_movecb \<and>
          mux_curtic (user s4) = of_nat (elapsed [300000, 300000] div unat (500000 :: u64)) \<and>
          unat (mux_curpos (user s4)) = elapsed [300000, 300000] mod unat (500000 :: u64) \<and>
          phases (user s4) =
            [] @ [MUX_STARTWAIT, MUX_START, MUX_FIRST] @
              (if 0 < elapsed [300000, 300000] div unat (500000 :: u64)
               then [MUX_NEXT] else []))"
    by (elim exE conjE)
  have st0: "started 0 = s1"
    by (simp add: started_def r1)
  from a [rule_format, OF h] obtain s2 s3 s4 where
    r: "mux_timer_run no_call [5000000] s1 = Some (Inr s2)"
      "mux_phase (user s2) = MUX_START"
      "song_calls (user s2) = []"
      "mux_timercb no_call 5000000 s2 = Some (Inr s3)"
      "mux_phase (user s3) = MUX_FIRST"
      "song_calls (user s3) = [Song_startcb]"
      "mux_timer_run no_call [300000, 300000] s3 = Some (Inr s4)"
      "song_calls (user s4) = [Song_startcb, Song_movecb]"
      "mux_curtic (user s4) = 1"
      "unat (mux_curpos (user s4)) = 100000"
      "phases (user s4) = [MUX_STARTWAIT, MUX_START, MUX_FIRST, MUX_NEXT]"
    unfolding k by (elim exE conjE) simp
  have p0: "phases (user (started 0)) = [MUX_STARTWAIT, MUX_START]"
    using p1 by (simp add: st0)
  have auto_run: "\<exists>s2 s3 s4.
      phases (user (started 0)) = [MUX_STARTWAIT, MUX_START] \<and>
      mux_timer_run no_call [5000000] (started 0) = Some (Inr s2) \<and>
      mux_phase (user s2) = MUX_START \<and>
      song_calls (user s2) = [] \<and>
      mux_timercb no_call 5000000 s2 = Some (Inr s3) \<and>
      mux_phase (user s3) = MUX_FIRST \<and>
      song_calls (user s3) = [Song_startcb] \<and>
      mux_timer_run no_call [300000, 300000] s3 = Some (Inr s4) \<and>
      song_calls (user s4) = [Song_startcb, Song_movecb] \<and>
      mux_curtic (user s4) = 1 \<and>
      unat (mux_curpos (user s4)) = 100000 \<and>
      phases (user s4) = [MUX_STARTWAIT, MUX_START, MUX_FIRST, MUX_NEXT]"
    using p0 r unfolding st0
    by (intro exI [of _ s2] exI [of _ s3] exI [of _ s4] conjI)
  from mux_internal_ticks [OF callbacks_ok_no_call o(1) o(2),
      of no_goto 1 "[]" 0 "[]" "[8000000, 500000, 500000]", unfolded o]
  obtain m1 where
    rm: "mux_startreq no_goto 1 (mux_open [clock_dev]) = Inr m1" and
    b: "(1 :: u32) \<noteq> 0 \<longrightarrow>
       (\<exists>s'. mux_timer_run no_call [8000000, 500000, 500000] m1 = Some (Inr s') \<and>
          mux_phase (user s') = MUX_START \<and>
          mux_curtic (user s') = mux_curtic (user (mux_open [clock_dev])) \<and>
          song_calls (user s') = [] \<and>
          phases (user s') = [] @ [MUX_STARTWAIT, MUX_START])"
    by (elim exE conjE)
  have st1: "started 1 = m1"
    by (simp add: started_def rm)
  have manual_run: "\<exists>s'.
      mux_timer_run no_call [8000000, 500000, 500000] (started 1) = Some (Inr s') \<and>
      mux_phase (user s') = MUX_START \<and>
      song_calls (user s') = [] \<and>
      phases (user s') = [MUX_STARTWAIT, MUX_START]"
    using b unfolding st1 by auto
  show ?thesis
    using callbacks_ok_no_call o(1-3) e auto_run manual_run by blast
qed

text \<open>
  The claim as stated fails for a start request with \<^verbatim>\<open>manualstart = 1\<close>: the
  timer callbacks never fire the first tick, and the phase stays \<open>START\<close> however much
  delta accumulates.
\<close>

theorem mux_manualstart_counterexample:
  "mididev_clksrc (user (started 1)) = None \<and>
   mididev_mtcsrc (user (started 1)) = None \<and>
   mux_phase (user (started 1)) = MUX_START \<and>
   mux_nextpos (user (started 1)) = 8000000 \<and>
   mux_ticlength (user (started 1)) = 500000 \<and>
   \<not> isl (the (mux_timer_run no_call [8000000, 500000, 500000] (started 1))) \<and>
   mux_phase (user (projr (the (mux_timer_run no_call [8000000, 500000, 500000] (started 1)))))
     = MUX_START \<and>
   song_calls (user (projr (the (mux_timer_run no_call [8000000, 500000, 500000] (started 1)))))
     = []"
  by code_simp

end
